theory Spec2Isabelle
  imports Main "HOL-Library.Signed_Division"
begin

section \<open>Data model\<close>

text \<open>
  Class \<open>BigInt\<close> of \<open>src/BigInt.cpp\<close> has a single field, \<open>vector<char> vi\<close>, holding
  the decimal digits least significant first. A value of the class is modelled by the
  content of that vector. The element type \<open>char\<close> is read as a signed 8-bit integer (as
  on x86-64); a digit is an \<open>int\<close> here, and the two stores that can leave the range of
  \<open>char\<close> go through \<open>to_char\<close>. C++ \<open>/\<close> and \<open>%\<close> on \<open>int\<close> truncate towards zero:
  they are \<open>sdiv\<close> and \<open>smod\<close>. Vector sizes and loop indices that the source keeps
  non-negative are \<open>nat\<close>. No intermediate \<open>int\<close> or \<open>long long\<close> of the source can
  overflow on digits that fit a \<open>char\<close>, so they are unbounded integers here.
\<close>

type_synonym BigInt = "int list"

text \<open>
  What an operation can do instead of returning a value: throw the string literal it
  names, or index a vector beyond its size (undefined behaviour in C++).
\<close>

datatype error = Thrown string | OutOfRange

definition to_char :: "int \<Rightarrow> int" where
  "to_char x = (x + 128) mod 256 - 128"

subsection \<open>Constructors\<close>

text \<open>\<open>BigInt::BigInt(int n)\<close>: \<open>while (n > 0) { vi.push_back(n % 10); n /= 10; }\<close>\<close>

function BigInt_int_loop :: "int \<Rightarrow> BigInt \<Rightarrow> BigInt" where
  "BigInt_int_loop n vi =
     (if n > 0 then BigInt_int_loop (n sdiv 10) (vi @ [n smod 10]) else vi)"
  by pat_completeness auto
termination
proof (relation "measure (\<lambda>(n, vi). nat n)")
  show "wf (measure (\<lambda>(n, vi). nat n))" by simp
next
  fix n :: int and vi :: BigInt
  assume "0 < n"
  then have "n sdiv 10 = n div 10"
    by (simp add: signed_divide_int_def sgn_if)
  with \<open>0 < n\<close> show "((n sdiv 10, vi @ [n smod 10]), (n, vi)) \<in> measure (\<lambda>(n, vi). nat n)"
    by simp
qed

definition BigInt_int :: "int \<Rightarrow> BigInt" where
  "BigInt_int n = BigInt_int_loop n []"

text \<open>
  \<open>BigInt::BigInt(string s)\<close>:
  \<open>for (int i = s.length() - 1; i >= 0; i--) vi.push_back(s[i] - '0');\<close>
  The counter of the model is the source's \<open>i + 1\<close>, so that it stays a \<open>nat\<close>;
  \<open>s ! i\<close> is read only for \<open>i < length s\<close>.
\<close>

fun BigInt_string_loop :: "string \<Rightarrow> nat \<Rightarrow> BigInt \<Rightarrow> BigInt" where
  "BigInt_string_loop s 0 vi = vi"
| "BigInt_string_loop s (Suc i) vi =
     BigInt_string_loop s i (vi @ [to_char (of_char (s ! i) - 48)])"

definition BigInt_string :: "string \<Rightarrow> BigInt" where
  "BigInt_string s = BigInt_string_loop s (length s) []"

subsection \<open>Comparison\<close>

text \<open>\<open>operator==\<close>: \<open>return vi == other.vi;\<close>\<close>

definition op_eq :: "BigInt \<Rightarrow> BigInt \<Rightarrow> bool" where
  "op_eq a other = (a = other)"

text \<open>
  \<open>operator<=\<close>: unequal sizes decide; otherwise the digits are scanned from index
  \<open>size - 1\<close> down to 0 and the first mismatch decides. The counter is the source's
  \<open>i + 1\<close>; both vectors have the same size where the loop runs.
\<close>

fun le_loop :: "BigInt \<Rightarrow> BigInt \<Rightarrow> nat \<Rightarrow> bool" where
  "le_loop a other 0 = True"
| "le_loop a other (Suc i) =
     (if a ! i \<noteq> other ! i then a ! i < other ! i else le_loop a other i)"

definition op_le :: "BigInt \<Rightarrow> BigInt \<Rightarrow> bool" where
  "op_le a other =
     (if length a \<noteq> length other then length a < length other
      else le_loop a other (length a))"

subsection \<open>Addition\<close>

text \<open>
  \<open>operator+\<close>. One iteration of
  \<open>for (int i = 0; i < maxSize || carry; i++)\<close> per call of \<open>add_loop\<close>. The body
  pushes a 0 when \<open>i == result.size()\<close> and then writes \<open>result.vi[i]\<close>; writing beyond
  the vector is \<open>OutOfRange\<close>. \<open>maxSize\<close> is computed once, before the loop.
\<close>

function add_loop :: "BigInt \<Rightarrow> BigInt \<Rightarrow> nat \<Rightarrow> int \<Rightarrow> nat \<Rightarrow> BigInt \<Rightarrow> error + BigInt" where
  "add_loop a other maxSize carry i result =
     (if i < maxSize \<or> carry \<noteq> 0 then
        (let result1 = (if i = length result then result @ [0] else result);
             sum = carry + (if i < length a then a ! i else 0)
                         + (if i < length other then other ! i else 0)
         in if i < length result1
            then add_loop a other maxSize (sum sdiv 10) (i + 1) (result1[i := sum smod 10])
            else Inl OutOfRange)
      else Inr result)"
  by pat_completeness auto
termination
proof (relation "measures [\<lambda>(a, other, maxSize, carry, i, result).
                              max maxSize (max (length a) (length other)) - i,
                           \<lambda>(a, other, maxSize, carry, i, result). nat \<bar>carry\<bar>]")
  show "wf (measures [\<lambda>(a, other, maxSize, carry, i, result).
                              max maxSize (max (length a) (length other)) - i,
                           \<lambda>(a, other, maxSize, carry, i, result). nat \<bar>carry\<bar>])"
    by simp
next
  fix a other :: BigInt and maxSize i :: nat and carry :: int and result x xa :: BigInt
  fix xb :: int
  assume c: "i < maxSize \<or> carry \<noteq> 0"
    and xb: "xb = carry + (if i < length a then a ! i else 0)
                        + (if i < length other then other ! i else 0)"
  have "\<bar>carry sdiv 10\<bar> < \<bar>carry\<bar>" if "carry \<noteq> 0"
    using that by (simp add: signed_divide_int_def sgn_if abs_mult) linarith
  with c xb
  show "((a, other, maxSize, xb sdiv 10, i + 1, xa[i := xb smod 10]),
         (a, other, maxSize, carry, i, result))
        \<in> measures [\<lambda>(a, other, maxSize, carry, i, result).
                              max maxSize (max (length a) (length other)) - i,
                           \<lambda>(a, other, maxSize, carry, i, result). nat \<bar>carry\<bar>]"
    by (cases "i < max maxSize (max (length a) (length other))") auto
qed

definition op_add :: "BigInt \<Rightarrow> BigInt \<Rightarrow> error + BigInt" where
  "op_add a other = add_loop a other (max (length a) (length other)) 0 0 []"

subsection \<open>Normalisation\<close>

text \<open>
  \<open>while (!result.vi.empty() && result.vi.back() == 0) result.vi.pop_back();\<close>
  as it ends \<open>operator-\<close>, \<open>operator*\<close> and \<open>operator/\<close>.
\<close>

function strip :: "BigInt \<Rightarrow> BigInt" where
  "strip vi = (if vi \<noteq> [] \<and> last vi = 0 then strip (butlast vi) else vi)"
  by pat_completeness auto
termination
  by (relation "measure length") auto

subsection \<open>Subtraction\<close>

text \<open>
  \<open>operator-\<close>. One iteration of \<open>for (int i = 0; i < vi.size(); i++)\<close> per call of
  \<open>sub_loop\<close>; the digit pushed is an \<open>int\<close> narrowed to \<open>char\<close>.
\<close>

function sub_loop :: "BigInt \<Rightarrow> BigInt \<Rightarrow> int \<Rightarrow> nat \<Rightarrow> BigInt \<Rightarrow> BigInt" where
  "sub_loop a other borrow i result =
     (if i < length a then
        (let sub = a ! i - borrow - (if i < length other then other ! i else 0)
         in if sub < 0
            then sub_loop a other 1 (i + 1) (result @ [to_char (sub + 10)])
            else sub_loop a other 0 (i + 1) (result @ [to_char sub]))
      else result)"
  by pat_completeness auto
termination
  by (relation "measure (\<lambda>(a, other, borrow, i, result). length a - i)") auto

definition op_sub :: "BigInt \<Rightarrow> BigInt \<Rightarrow> BigInt" where
  "op_sub a other = strip (sub_loop a other 0 0 [])"

subsection \<open>Multiplication\<close>

text \<open>
  \<open>operator*\<close>. \<open>mult_inner\<close> is the loop
  \<open>for (int j = 0; j < other.vi.size() || carry; j++)\<close> of one row, \<open>mult_outer\<close> the
  loop over the rows. \<open>result.vi[i+j]\<close> is not guarded by the source: an index beyond
  the buffer is \<open>OutOfRange\<close>.
\<close>

function mult_inner :: "BigInt \<Rightarrow> BigInt \<Rightarrow> nat \<Rightarrow> nat \<Rightarrow> int \<Rightarrow> BigInt \<Rightarrow> error + BigInt" where
  "mult_inner a other i j carry result =
     (if j < length other \<or> carry \<noteq> 0 then
        (if i + j < length result then
           (let sum = result ! (i + j) + carry
                      + a ! i * (if j < length other then other ! j else 0)
            in mult_inner a other i (j + 1) (sum sdiv 10) (result[i + j := sum smod 10]))
         else Inl OutOfRange)
      else Inr result)"
  by pat_completeness auto
termination
  by (relation "measure (\<lambda>(a, other, i, j, carry, result).
                   max (length other) (length result - i) - j)") auto

function mult_outer :: "BigInt \<Rightarrow> BigInt \<Rightarrow> nat \<Rightarrow> BigInt \<Rightarrow> error + BigInt" where
  "mult_outer a other i result =
     (if i < length a then
        (case mult_inner a other i 0 0 result of
           Inl e \<Rightarrow> Inl e
         | Inr result1 \<Rightarrow> mult_outer a other (i + 1) result1)
      else Inr result)"
  by pat_completeness auto
termination
  by (relation "measure (\<lambda>(a, other, i, result). length a - i)") auto

definition op_mult :: "BigInt \<Rightarrow> BigInt \<Rightarrow> error + BigInt" where
  "op_mult a other =
     (case mult_outer a other 0 (replicate (length a + length other) 0) of
        Inl e \<Rightarrow> Inl e
      | Inr result \<Rightarrow> Inr (strip result))"

subsection \<open>Division and modulo\<close>

text \<open>
  The binary search of one quotient digit,
  \<open>while (l <= r) { int m = (l + r) / 2; if (other * BigInt(m) <= current) ... }\<close>,
  started by both operators with \<open>x = 0, l = 0, r = 10\<close>.
\<close>

function search :: "BigInt \<Rightarrow> BigInt \<Rightarrow> int \<Rightarrow> int \<Rightarrow> int \<Rightarrow> error + int" where
  "search other current l r x =
     (if l \<le> r then
        (let m = (l + r) sdiv 2
         in case op_mult other (BigInt_int m) of
              Inl e \<Rightarrow> Inl e
            | Inr p \<Rightarrow> if op_le p current
                       then search other current (m + 1) r m
                       else search other current l (m - 1) x)
      else Inr x)"
  by pat_completeness auto
termination
proof (relation "measure (\<lambda>(other, current, l, r, x). nat (r - l + 1))")
  show "wf (measure (\<lambda>(other, current, l, r, x). nat (r - l + 1)))" by simp
next
  fix other current :: BigInt and l r x m :: int and p :: BigInt
  assume "l \<le> r" and m: "m = (l + r) sdiv 2"
  then have "l \<le> m \<and> m \<le> r"
    by (auto simp: signed_divide_int_def sgn_if)
  with \<open>l \<le> r\<close>
  show "((other, current, m + 1, r, m), (other, current, l, r, x))
          \<in> measure (\<lambda>(other, current, l, r, x). nat (r - l + 1))"
    and "((other, current, l, m - 1, x), (other, current, l, r, x))
          \<in> measure (\<lambda>(other, current, l, r, x). nat (r - l + 1))"
    by auto
qed

text \<open>
  \<open>operator/\<close>: the loop \<open>for (int i = vi.size() - 1; i >= 0; i--)\<close>, counter \<open>i + 1\<close>;
  \<open>insert(begin(), d)\<close> puts \<open>d\<close> in front of the vector.
\<close>

fun div_loop :: "BigInt \<Rightarrow> BigInt \<Rightarrow> nat \<Rightarrow> BigInt \<Rightarrow> BigInt \<Rightarrow> error + BigInt" where
  "div_loop a other 0 current result = Inr result"
| "div_loop a other (Suc i) current result =
     (let current1 = a ! i # current
      in case search other current1 0 10 0 of
           Inl e \<Rightarrow> Inl e
         | Inr x \<Rightarrow>
             (case op_mult other (BigInt_int x) of
                Inl e \<Rightarrow> Inl e
              | Inr p \<Rightarrow> div_loop a other i (op_sub current1 p) (x # result)))"

definition op_div :: "BigInt \<Rightarrow> BigInt \<Rightarrow> error + BigInt" where
  "op_div a other =
     (if op_eq other (BigInt_int 0) then Inl (Thrown ''Division by zero'')
      else case div_loop a other (length a) [] [] of
             Inl e \<Rightarrow> Inl e
           | Inr result \<Rightarrow> Inr (strip result))"

text \<open>\<open>operator%\<close>: the same loop without the quotient; it returns \<open>current\<close>.\<close>

fun mod_loop :: "BigInt \<Rightarrow> BigInt \<Rightarrow> nat \<Rightarrow> BigInt \<Rightarrow> error + BigInt" where
  "mod_loop a other 0 current = Inr current"
| "mod_loop a other (Suc i) current =
     (let current1 = a ! i # current
      in case search other current1 0 10 0 of
           Inl e \<Rightarrow> Inl e
         | Inr x \<Rightarrow>
             (case op_mult other (BigInt_int x) of
                Inl e \<Rightarrow> Inl e
              | Inr p \<Rightarrow> mod_loop a other i (op_sub current1 p)))"

definition op_mod :: "BigInt \<Rightarrow> BigInt \<Rightarrow> error + BigInt" where
  "op_mod a other =
     (if op_eq other (BigInt_int 0) then Inl (Thrown ''Modulo by zero'')
      else mod_loop a other (length a) [])"

subsection \<open>Increment\<close>

text \<open>
  The two increment operators are the only ones that assign to the receiver. Each is a
  function from the receiver to the pair (value returned, receiver afterwards).
  \<open>*this + 1\<close> converts 1 through \<open>BigInt(int)\<close>.
\<close>

definition post_increment :: "BigInt \<Rightarrow> error + (BigInt \<times> BigInt)" where
  "post_increment this =
     (let temp = this
      in case op_add this (BigInt_int 1) of
           Inl e \<Rightarrow> Inl e
         | Inr this1 \<Rightarrow> Inr (temp, this1))"

definition pre_increment :: "BigInt \<Rightarrow> error + (BigInt \<times> BigInt)" where
  "pre_increment this =
     (case op_add this (BigInt_int 1) of
        Inl e \<Rightarrow> Inl e
      | Inr this1 \<Rightarrow> Inr (this1, this1))"

subsection \<open>Printing\<close>

text \<open>
  \<open>print\<close> writes \<open>static_cast<int>(vi[i])\<close> to \<open>cout\<close> for \<open>i\<close> from \<open>size - 1\<close> down
  to 0. The model returns the characters written. \<open>show_int\<close> is the decimal rendering
  of an \<open>int\<close> by the stream in its default state.
\<close>

function show_nat :: "nat \<Rightarrow> string" where
  "show_nat n =
     (if n < 10 then [char_of (48 + n)]
      else show_nat (n div 10) @ [char_of (48 + n mod 10)])"
  by pat_completeness auto
termination
  by (relation "measure id") auto

definition show_int :: "int \<Rightarrow> string" where
  "show_int k = (if k < 0 then CHR ''-'' # show_nat (nat (- k)) else show_nat (nat k))"

fun print_loop :: "BigInt \<Rightarrow> nat \<Rightarrow> string" where
  "print_loop vi 0 = []"
| "print_loop vi (Suc i) = show_int (vi ! i) @ print_loop vi i"

definition print :: "BigInt \<Rightarrow> string" where
  "print vi = print_loop vi (length vi)"

subsection \<open>Factorial\<close>

text \<open>
  \<open>BigInt::fact\<close> (\<open>fact\<close> is the factorial of HOL, so the method is \<open>fact_BigInt\<close>):
  \<open>BigInt result = 1; for (BigInt i = 2; i <= *this; i = i + 1) result = result * i;\<close>
  Nothing in the loop bounds the number of iterations syntactically, so the loop is a
  partial function: \<open>None\<close> is a run that does not end.
\<close>

partial_function (option) fact_loop :: "BigInt \<Rightarrow> BigInt \<Rightarrow> BigInt \<Rightarrow> (error + BigInt) option" where
  "fact_loop this i result =
     (if op_le i this then
        (case op_mult result i of
           Inl e \<Rightarrow> Some (Inl e)
         | Inr result1 \<Rightarrow>
             (case op_add i (BigInt_int 1) of
                Inl e \<Rightarrow> Some (Inl e)
              | Inr i1 \<Rightarrow> fact_loop this i1 result1))
      else Some (Inr result))"

declare fact_loop.simps [code]

definition fact_BigInt :: "BigInt \<Rightarrow> (error + BigInt) option" where
  "fact_BigInt this = fact_loop this (BigInt_int 2) (BigInt_int 1)"

text \<open>
  The equations of the loops defined by \<open>function\<close> unfold without end as rewrite
  rules; they are used by hand.
\<close>

declare BigInt_int_loop.simps [simp del]
declare add_loop.simps [simp del]
declare strip.simps [simp del]
declare sub_loop.simps [simp del]
declare mult_inner.simps [simp del]
declare mult_outer.simps [simp del]
declare search.simps [simp del]
declare show_nat.simps [simp del]

section \<open>Specification vocabulary\<close>

text \<open>The number a digit sequence denotes.\<close>

fun val :: "BigInt \<Rightarrow> int" where
  "val [] = 0"
| "val (d # ds) = d + 10 * val ds"

text \<open>
  Invariant B of the data model: every digit is in 0..9. These are the values the two
  constructors build from a machine integer or from a string of decimal digits (a string
  may start with zeros, which the constructor keeps as most significant digits).
\<close>

definition digits_ok :: "BigInt \<Rightarrow> bool" where
  "digits_ok vi = list_all (\<lambda>d. 0 \<le> d \<and> d \<le> 9) vi"

text \<open>
  Invariant A, with the convention of the source: zero is the empty sequence, and a
  non-empty sequence ends in a non-zero most significant digit.
\<close>

definition canonical :: "BigInt \<Rightarrow> bool" where
  "canonical vi = (digits_ok vi \<and> (vi = [] \<or> last vi \<noteq> 0))"

text \<open>The largest \<open>int\<close> of the source's platform (\<open>INT_MAX\<close> of \<open>limits.h\<close>, 32 bits).\<close>

definition INT_MAX :: int where
  "INT_MAX = 2147483647"

section \<open>Auxiliary facts\<close>

subsection \<open>Truncating division and narrowing on the values that occur\<close>

lemma sdiv_nonneg: "0 \<le> a \<Longrightarrow> a sdiv 10 = a div (10::int)"
  by (simp add: signed_divide_int_def sgn_if)

lemma smod_nonneg: "0 \<le> a \<Longrightarrow> a smod 10 = a mod (10::int)"
  by (simp add: smod_mod_positive)

lemma to_char_id: "- 128 \<le> x \<Longrightarrow> x \<le> 127 \<Longrightarrow> to_char x = x"
  by (simp add: to_char_def)

subsection \<open>Digit sequences and their value\<close>

lemma digits_ok_simps [simp]:
  "digits_ok []"
  "digits_ok (d # ds) \<longleftrightarrow> 0 \<le> d \<and> d \<le> 9 \<and> digits_ok ds"
  "digits_ok (xs @ ys) \<longleftrightarrow> digits_ok xs \<and> digits_ok ys"
  by (auto simp: digits_ok_def)

lemma digits_ok_nth: "digits_ok v \<Longrightarrow> i < length v \<Longrightarrow> 0 \<le> v ! i \<and> v ! i \<le> 9"
  by (simp add: digits_ok_def list_all_length)

lemma digits_ok_update:
  "digits_ok v \<Longrightarrow> 0 \<le> d \<Longrightarrow> d \<le> 9 \<Longrightarrow> digits_ok (v[k := d])"
  unfolding digits_ok_def list_all_iff
  using set_update_subset_insert [of v k d] by auto

lemma digits_ok_take: "digits_ok v \<Longrightarrow> digits_ok (take k v)"
  unfolding digits_ok_def list_all_iff by (auto dest: in_set_takeD)

lemma digits_ok_drop: "digits_ok v \<Longrightarrow> digits_ok (drop k v)"
  unfolding digits_ok_def list_all_iff by (auto dest: in_set_dropD)

lemma digits_ok_butlast: "digits_ok v \<Longrightarrow> digits_ok (butlast v)"
  unfolding digits_ok_def list_all_iff by (auto dest: in_set_butlastD)

lemma digits_ok_replicate [simp]: "digits_ok (replicate n 0)"
  by (simp add: digits_ok_def list_all_iff)

lemma val_append: "val (xs @ ys) = val xs + 10 ^ length xs * val ys"
  by (induction xs) (simp_all add: algebra_simps)

lemma val_replicate [simp]: "val (replicate n 0) = 0"
  by (induction n) simp_all

lemma val_bounds: "digits_ok v \<Longrightarrow> 0 \<le> val v \<and> val v < 10 ^ length v"
  by (induction v) auto

lemma val_nonneg: "digits_ok v \<Longrightarrow> 0 \<le> val v"
  by (simp add: val_bounds)

lemma val_less: "digits_ok v \<Longrightarrow> val v < 10 ^ length v"
  by (simp add: val_bounds)

lemma val_update:
  "k < length r \<Longrightarrow> val (r[k := v]) = val r + (v - r ! k) * 10 ^ k"
proof (induction r arbitrary: k)
  case Nil
  then show ?case by simp
next
  case (Cons d ds)
  show ?case
  proof (cases k)
    case 0
    then show ?thesis by simp
  next
    case (Suc m)
    with Cons.prems have "m < length ds" by simp
    from Cons.IH [OF this] Suc show ?thesis by (simp add: algebra_simps)
  qed
qed

lemma val_drop: "i < length a \<Longrightarrow> val (drop i a) = a ! i + 10 * val (drop (Suc i) a)"
  by (simp flip: Cons_nth_drop_Suc)

lemma val_take_Suc: "i < length a \<Longrightarrow> val (take (Suc i) a) = val (take i a) + 10 ^ i * a ! i"
  by (simp add: take_Suc_conv_app_nth val_append)

subsection \<open>Normalisation and canonical sequences\<close>

lemma val_butlast: "v \<noteq> [] \<Longrightarrow> last v = 0 \<Longrightarrow> val (butlast v) = val v"
proof -
  assume "v \<noteq> []" "last v = 0"
  then have "v = butlast v @ [0]" by (metis append_butlast_last_id)
  then have "val v = val (butlast v @ [0])" by simp
  then show ?thesis by (simp add: val_append)
qed

lemma val_strip: "val (strip v) = val v"
proof (induction v rule: strip.induct)
  case (1 vi)
  show ?case
  proof (cases "vi \<noteq> [] \<and> last vi = 0")
    case True
    then have "val (strip vi) = val (strip (butlast vi))" by (subst strip.simps) simp
    with True "1" show ?thesis by (simp add: val_butlast)
  next
    case False
    then show ?thesis by (subst strip.simps) auto
  qed
qed

lemma canonical_strip: "digits_ok v \<Longrightarrow> canonical (strip v)"
proof (induction v rule: strip.induct)
  case (1 vi)
  show ?case
  proof (cases "vi \<noteq> [] \<and> last vi = 0")
    case True
    then have "strip vi = strip (butlast vi)" by (subst strip.simps) simp
    with True "1" show ?thesis by (simp add: digits_ok_butlast)
  next
    case False
    then have "strip vi = vi" by (subst strip.simps) auto
    with False "1.prems" show ?thesis by (auto simp: canonical_def)
  qed
qed

lemma strip_canonical: "canonical v \<Longrightarrow> strip v = v"
  by (subst strip.simps) (auto simp: canonical_def)

lemma canonical_Nil [simp]: "canonical []"
  by (simp add: canonical_def)

lemma canonical_lower: "canonical v \<Longrightarrow> v \<noteq> [] \<Longrightarrow> 10 ^ (length v - 1) \<le> val v"
proof -
  assume c: "canonical v" and ne: "v \<noteq> []"
  then have v: "v = butlast v @ [last v]" by simp
  from c have ok: "digits_ok v" by (simp add: canonical_def)
  from c ne have "last v \<noteq> 0" by (simp add: canonical_def)
  moreover from ok v have "0 \<le> last v" by (metis digits_ok_simps(2,3))
  ultimately have l: "1 \<le> last v" by simp
  have "val v = val (butlast v) + 10 ^ (length v - 1) * last v"
    by (subst v) (simp add: val_append)
  moreover have "0 \<le> val (butlast v)" using ok by (simp add: val_nonneg digits_ok_butlast)
  moreover have "(10::int) ^ (length v - 1) * 1 \<le> 10 ^ (length v - 1) * last v"
    using l by (intro mult_left_mono) simp_all
  ultimately show ?thesis by linarith
qed

lemma canonical_pos: "canonical v \<Longrightarrow> v \<noteq> [] \<Longrightarrow> 0 < val v"
proof -
  assume "canonical v" "v \<noteq> []"
  then have "10 ^ (length v - 1) \<le> val v" by (rule canonical_lower)
  moreover have "(0::int) < 10 ^ (length v - 1)" by simp
  ultimately show ?thesis by linarith
qed

lemma canonical_zero: "canonical v \<Longrightarrow> val v = 0 \<Longrightarrow> v = []"
  using canonical_pos [of v] by auto

lemma canonical_tl: "canonical (d # ds) \<Longrightarrow> canonical ds"
  by (cases ds) (auto simp: canonical_def)

lemma canonical_unique: "canonical x \<Longrightarrow> canonical y \<Longrightarrow> val x = val y \<Longrightarrow> x = y"
proof (induction x arbitrary: y)
  case Nil
  then show ?case using canonical_zero [of y] by simp
next
  case (Cons d ds)
  show ?case
  proof (cases y)
    case Nil
    with Cons.prems show ?thesis using canonical_zero [of "d # ds"] by simp
  next
    case (Cons e es)
    with Cons.prems have d: "0 \<le> d" "d \<le> 9" "0 \<le> e" "e \<le> 9"
      and v: "d + 10 * val ds = e + 10 * val es"
      by (simp_all add: canonical_def)
    then have "d = e" by presburger
    with v have "val ds = val es" by simp
    with Cons.IH [of es] Cons.prems Cons \<open>d = e\<close> show ?thesis
      by (auto dest: canonical_tl)
  qed
qed

subsection \<open>The constructor from a machine integer\<close>

text \<open>For \<open>n \<ge> 0\<close> the loop appends the canonical digits of \<open>n\<close>.\<close>

lemma BigInt_int_loop_inv:
  "0 \<le> n \<Longrightarrow> digits_ok vi \<Longrightarrow> 0 < n \<or> vi = [] \<or> last vi \<noteq> 0 \<Longrightarrow>
   canonical (BigInt_int_loop n vi) \<and>
   val (BigInt_int_loop n vi) = val vi + 10 ^ length vi * n"
proof (induction n vi rule: BigInt_int_loop.induct)
  case (1 n vi)
  show ?case
  proof (cases "0 < n")
    case False
    with "1.prems" have "n = 0" by simp
    with "1.prems" show ?thesis
      by (subst (1 2) BigInt_int_loop.simps) (auto simp: canonical_def)
  next
    case True
    then have sd: "n sdiv 10 = n div 10" "n smod 10 = n mod 10"
      by (simp_all add: sdiv_nonneg smod_nonneg)
    have unfold: "BigInt_int_loop n vi = BigInt_int_loop (n div 10) (vi @ [n mod 10])"
      using True sd by (subst BigInt_int_loop.simps) simp
    have a: "0 \<le> n div 10" using True by simp
    have b: "digits_ok (vi @ [n mod 10])" using "1.prems" by simp
    have c: "0 < n div 10 \<or> vi @ [n mod 10] = [] \<or> last (vi @ [n mod 10]) \<noteq> 0"
      using True by simp presburger
    from "1.IH" [OF True, unfolded sd, OF a b c]
    have "canonical (BigInt_int_loop n vi)"
      and "val (BigInt_int_loop n vi) = val (vi @ [n mod 10]) + 10 ^ length (vi @ [n mod 10]) * (n div 10)"
      by (simp_all add: unfold)
    moreover have "10 ^ length vi * n
                   = 10 ^ length vi * (n mod 10) + 10 ^ length vi * (10 * (n div 10))"
      by (simp flip: distrib_left)
    ultimately show ?thesis by (simp add: val_append)
  qed
qed

lemma BigInt_int_correct: "0 \<le> n \<Longrightarrow> canonical (BigInt_int n) \<and> val (BigInt_int n) = n"
  using BigInt_int_loop_inv [of n "[]"] by (simp add: BigInt_int_def)

lemma BigInt_int_nonpos: "n \<le> 0 \<Longrightarrow> BigInt_int n = []"
  by (simp add: BigInt_int_def BigInt_int_loop.simps)

subsection \<open>Comparison\<close>

text \<open>
  On equal lengths the scan from the most significant digit orders the values, canonical
  or not; unequal lengths order the values when the longer operand is canonical.
\<close>

lemma digit_cmp:
  fixes A B P x y :: int
  assumes "0 \<le> A" "A < P" "0 \<le> B" "x < y"
  shows "A + P * x < B + P * y"
proof -
  from assms have "0 \<le> P" by simp
  from assms have "x + 1 \<le> y" by simp
  then have "P * (x + 1) \<le> P * y" using \<open>0 \<le> P\<close> by (rule mult_left_mono)
  then have "P * x + P \<le> P * y" by (simp add: algebra_simps)
  with assms show ?thesis by linarith
qed

lemma le_loop_val:
  "digits_ok a \<Longrightarrow> digits_ok b \<Longrightarrow> k \<le> length a \<Longrightarrow> k \<le> length b \<Longrightarrow>
   le_loop a b k \<longleftrightarrow> val (take k a) \<le> val (take k b)"
proof (induction k)
  case 0
  then show ?case by simp
next
  case (Suc k)
  let ?A = "val (take k a)" and ?B = "val (take k b)"
  from Suc.prems have A: "0 \<le> ?A" "?A < 10 ^ k"
    using val_bounds [of "take k a"] by (simp_all add: digits_ok_take)
  from Suc.prems have B: "0 \<le> ?B" "?B < 10 ^ k"
    using val_bounds [of "take k b"] by (simp_all add: digits_ok_take)
  from Suc.prems have va: "val (take (Suc k) a) = ?A + 10 ^ k * a ! k"
    and vb: "val (take (Suc k) b) = ?B + 10 ^ k * b ! k"
    by (simp_all add: val_take_Suc)
  from Suc have IH: "le_loop a b k \<longleftrightarrow> ?A \<le> ?B" by simp
  consider "a ! k < b ! k" | "b ! k < a ! k" | "a ! k = b ! k" by linarith
  then show ?case
  proof cases
    case 1
    from digit_cmp [OF A(1) A(2) B(1) 1] 1 show ?thesis
      unfolding va vb by simp
  next
    case 2
    from digit_cmp [OF B(1) B(2) A(1) 2] 2 show ?thesis
      unfolding va vb by simp
  next
    case 3
    with IH show ?thesis unfolding va vb by simp
  qed
qed

lemma op_le_correct_gen:
  assumes a: "canonical a" and b: "digits_ok b" and bw: "length b \<le> 1 \<or> last b \<noteq> 0"
  shows "op_le a b \<longleftrightarrow> val a \<le> val b"
proof -
  from a have oka: "digits_ok a" by (simp add: canonical_def)
  consider "length a < length b" | "length b < length a" | "length a = length b" by linarith
  then show ?thesis
  proof cases
    case 1
    have "val a \<le> val b"
    proof (cases "length b \<le> 1")
      case True
      with 1 have "length a = 0" by linarith
      then have "a = []" by simp
      with b show ?thesis by (simp add: val_nonneg)
    next
      case False
      with bw b have cb: "canonical b" "b \<noteq> []" by (auto simp: canonical_def)
      have "val a < 10 ^ length a" using oka by (rule val_less)
      also have "(10::int) ^ length a \<le> 10 ^ (length b - 1)"
        using 1 by (intro power_increasing) simp_all
      also have "\<dots> \<le> val b" using cb by (rule canonical_lower)
      finally show ?thesis by simp
    qed
    with 1 show ?thesis by (simp add: op_le_def)
  next
    case 2
    then have ne: "a \<noteq> []" by auto
    have "val b < 10 ^ length b" using b by (rule val_less)
    also have "(10::int) ^ length b \<le> 10 ^ (length a - 1)"
      using 2 by (intro power_increasing) simp_all
    also have "\<dots> \<le> val a" using a ne by (rule canonical_lower)
    finally have "\<not> val a \<le> val b" by simp
    with 2 show ?thesis by (simp add: op_le_def)
  next
    case 3
    with le_loop_val [OF oka b, of "length a"] show ?thesis
      by (simp add: op_le_def)
  qed
qed

lemma op_le_correct: "canonical a \<Longrightarrow> canonical b \<Longrightarrow> op_le a b \<longleftrightarrow> val a \<le> val b"
  by (rule op_le_correct_gen) (auto simp: canonical_def)

lemma le_loop_mismatch:
  "k < n \<Longrightarrow> (\<forall>j. k < j \<and> j < n \<longrightarrow> a ! j = b ! j) \<Longrightarrow> a ! k \<noteq> b ! k \<Longrightarrow>
   le_loop a b n = (a ! k < b ! k)"
proof (induction n)
  case 0
  then show ?case by simp
next
  case (Suc n)
  show ?case
  proof (cases "k = n")
    case True
    with Suc.prems show ?thesis by simp
  next
    case False
    with Suc.prems have "k < n" "a ! n = b ! n" by simp_all
    with Suc show ?thesis by simp
  qed
qed

lemma le_loop_refl: "le_loop a a n"
  by (induction n) simp_all

subsection \<open>Addition\<close>

text \<open>
  Invariant of the loop: \<open>i\<close> is the size of \<open>result\<close>, the carry is 0 or 1, and the digits
  written so far together with the carry and the digits still to read denote the sum.
\<close>

lemma val_drop_guard:
  "val (drop i a) = (if i < length a then a ! i else 0) + 10 * val (drop (Suc i) a)"
  by (simp add: val_drop)

lemma digit_guard:
  "digits_ok a \<Longrightarrow> 0 \<le> (if i < length a then a ! i else 0) \<and> (if i < length a then a ! i else 0) \<le> 9"
  by (simp add: digits_ok_nth)

lemma add_loop_correct:
  "digits_ok a \<Longrightarrow> digits_ok b \<Longrightarrow> maxSize = max (length a) (length b) \<Longrightarrow>
   0 \<le> carry \<Longrightarrow> carry \<le> 1 \<Longrightarrow> i = length result \<Longrightarrow> digits_ok result \<Longrightarrow>
   \<exists>r. add_loop a b maxSize carry i result = Inr r \<and> digits_ok r \<and>
       val r = val result + 10 ^ i * (carry + val (drop i a) + val (drop i b)) \<and>
       (canonical a \<and> canonical b \<and> (i < maxSize \<or> carry \<noteq> 0 \<or> result = [] \<or> last result \<noteq> 0)
          \<longrightarrow> r = [] \<or> last r \<noteq> 0)"
proof (induction a b maxSize carry i result rule: add_loop.induct)
  case (1 a b maxSize carry i result)
  show ?case
  proof (cases "i < maxSize \<or> carry \<noteq> 0")
    case False
    with "1.prems" have "length a \<le> i" "length b \<le> i" "carry = 0" by auto
    then have "drop i a = []" "drop i b = []" "carry = 0" by simp_all
    with False "1.prems"(7) show ?thesis by (subst add_loop.simps) simp
  next
    case True
    define x where "x = (if i < length a then a ! i else 0)"
    define y where "y = (if i < length b then b ! i else 0)"
    define sum where "sum = carry + x + y"
    have x: "0 \<le> x" "x \<le> 9" and y: "0 \<le> y" "y \<le> 9"
      using "1.prems" digit_guard [of a i] digit_guard [of b i] by (simp_all add: x_def y_def)
    with "1.prems" have sum: "0 \<le> sum" "sum \<le> 19" by (simp_all add: sum_def)
    then have sd: "sum sdiv 10 = sum div 10" "sum smod 10 = sum mod 10"
      by (simp_all add: sdiv_nonneg smod_nonneg)
    have c': "0 \<le> sum div 10" "sum div 10 \<le> 1" using sum by simp_all
    have d: "0 \<le> sum mod 10" "sum mod 10 \<le> 9" using sum by simp_all
    let ?res = "result @ [sum mod 10]"
    have upd: "(result @ [0])[i := sum mod 10] = ?res"
      using "1.prems" by simp
    have unfold: "add_loop a b maxSize carry i result
                  = add_loop a b maxSize (sum div 10) (i + 1) ?res"
      using True "1.prems" sd upd
      by (subst add_loop.simps) (simp add: Let_def sum_def x_def y_def)
    have len: "i + 1 = length ?res" using "1.prems" by simp
    have ok: "digits_ok ?res" using "1.prems" d by simp
    have "\<exists>r. add_loop a b maxSize (sum div 10) (i + 1) ?res = Inr r \<and> digits_ok r \<and>
       val r = val ?res + 10 ^ (i + 1) * (sum div 10 + val (drop (i + 1) a) + val (drop (i + 1) b)) \<and>
       (canonical a \<and> canonical b \<and>
          (i + 1 < maxSize \<or> sum div 10 \<noteq> 0 \<or> ?res = [] \<or> last ?res \<noteq> 0)
          \<longrightarrow> r = [] \<or> last r \<noteq> 0)"
      using "1.IH" [OF True refl refl _ "1.prems"(1) "1.prems"(2) "1.prems"(3), of ]
        True "1.prems" sd upd c' len ok
      by (simp add: sum_def x_def y_def)
    then obtain r where r: "add_loop a b maxSize (sum div 10) (i + 1) ?res = Inr r"
      "digits_ok r"
      "val r = val ?res + 10 ^ (i + 1) * (sum div 10 + val (drop (i + 1) a) + val (drop (i + 1) b))"
      "canonical a \<and> canonical b \<and>
          (i + 1 < maxSize \<or> sum div 10 \<noteq> 0 \<or> ?res = [] \<or> last ?res \<noteq> 0)
          \<longrightarrow> r = [] \<or> last r \<noteq> 0"
      by blast
    have va: "val (drop i a) = x + 10 * val (drop (i + 1) a)"
      and vb: "val (drop i b) = y + 10 * val (drop (i + 1) b)"
      using val_drop_guard [of i a] val_drop_guard [of i b] by (simp_all add: x_def y_def)
    define q where "q = sum div 10"
    define m where "m = sum mod 10"
    have "sum = m + 10 * q" by (simp add: q_def m_def)
    then have "carry + x + y = m + 10 * q" by (simp add: sum_def)
    then have "carry + val (drop i a) + val (drop i b)
               = m + 10 * (q + val (drop (i + 1) a) + val (drop (i + 1) b))"
      unfolding va vb by (simp add: distrib_left)
    then have "10 ^ i * (carry + val (drop i a) + val (drop i b))
               = 10 ^ i * m + 10 ^ (i + 1) * (q + val (drop (i + 1) a) + val (drop (i + 1) b))"
      by (simp add: algebra_simps)
    then have "10 ^ i * (carry + val (drop i a) + val (drop i b))
               = 10 ^ i * (sum mod 10) + 10 ^ (i + 1) * (sum div 10 + val (drop (i + 1) a) + val (drop (i + 1) b))"
      unfolding q_def m_def .
    with r(3) "1.prems" have value_eq:
      "val r = val result + 10 ^ i * (carry + val (drop i a) + val (drop i b))"
      by (simp add: val_append)
    have canon: "r = [] \<or> last r \<noteq> 0"
      if ca: "canonical a" and cb: "canonical b"
    proof -
      have "i + 1 < maxSize \<or> sum div 10 \<noteq> 0 \<or> sum mod 10 \<noteq> 0"
      proof (rule ccontr)
        assume "\<not> ?thesis"
        then have top: "maxSize \<le> i + 1" and z: "sum div 10 = 0" "sum mod 10 = 0" by simp_all
        have "sum = sum mod 10 + 10 * (sum div 10)" by simp
        with z have "sum = 0" by simp
        with x y "1.prems" have zero: "carry = 0" "x = 0" "y = 0" by (simp_all add: sum_def)
        with True have "i < maxSize" by simp
        with top have i: "i + 1 = maxSize" by simp
        show False
        proof (cases "length b \<le> length a")
          case True
          with i "1.prems" have "a \<noteq> []" "i = length a - 1" by auto
          with ca have "a ! i \<noteq> 0" by (simp add: canonical_def last_conv_nth)
          with zero \<open>a \<noteq> []\<close> \<open>i = length a - 1\<close> show False by (simp add: x_def)
        next
          case False
          with i "1.prems" have "b \<noteq> []" "i = length b - 1" by auto
          with cb have "b ! i \<noteq> 0" by (simp add: canonical_def last_conv_nth)
          with zero \<open>b \<noteq> []\<close> \<open>i = length b - 1\<close> show False by (simp add: y_def)
        qed
      qed
      with r(4) ca cb show ?thesis by simp
    qed
    from r(1) r(2) value_eq canon unfold show ?thesis by simp
  qed
qed

lemma op_add_correct:
  assumes "digits_ok a" "digits_ok b"
  shows "\<exists>r. op_add a b = Inr r \<and> digits_ok r \<and> val r = val a + val b \<and>
             (canonical a \<and> canonical b \<longrightarrow> canonical r)"
proof -
  from add_loop_correct [OF assms refl, of 0 0 "[]"]
  obtain r where r: "add_loop a b (max (length a) (length b)) 0 0 [] = Inr r" "digits_ok r"
    "val r = val a + val b"
    "canonical a \<and> canonical b \<longrightarrow> r = [] \<or> last r \<noteq> 0"
    by auto
  then show ?thesis by (auto simp: op_add_def canonical_def)
qed

subsection \<open>Subtraction\<close>

text \<open>
  The loop computes the difference modulo \<open>10 ^ length a\<close>: \<open>k\<close> is the borrow left after
  the last digit, and only the first \<open>length a\<close> digits of the right operand are read.
\<close>

lemma sub_loop_correct:
  "digits_ok a \<Longrightarrow> digits_ok b \<Longrightarrow> 0 \<le> bw \<Longrightarrow> bw \<le> 1 \<Longrightarrow> i = length result \<Longrightarrow>
   i \<le> length a \<Longrightarrow> digits_ok result \<Longrightarrow>
   \<exists>k. (k = 0 \<or> k = 1) \<and> digits_ok (sub_loop a b bw i result) \<and>
       length (sub_loop a b bw i result) = length a \<and>
       val (sub_loop a b bw i result)
         = val result + 10 ^ i * (val (drop i a) - val (drop i (take (length a) b)) - bw)
           + k * 10 ^ length a"
proof (induction "length a - i" arbitrary: i bw result)
  case 0
  then have i: "i = length a" by simp
  then have "sub_loop a b bw i result = result" by (subst sub_loop.simps) simp
  moreover from "0.prems" have "bw = 0 \<or> bw = 1" by linarith
  ultimately show ?case using "0.prems" i by auto
next
  case (Suc n)
  then have i: "i < length a" by simp
  define x where "x = a ! i"
  define y where "y = (if i < length b then b ! i else 0)"
  define sub where "sub = x - bw - y"
  define bw' :: int where "bw' = (if sub < 0 then 1 else 0)"
  define d where "d = sub + 10 * bw'"
  have x: "0 \<le> x" "x \<le> 9" using Suc.prems i digits_ok_nth [of a i] by (simp_all add: x_def)
  have y: "0 \<le> y" "y \<le> 9" using Suc.prems digit_guard [of b i] by (simp_all add: y_def)
  have d: "0 \<le> d" "d \<le> 9" using x y Suc.prems by (auto simp: d_def bw'_def sub_def)
  then have tc: "to_char d = d" by (simp add: to_char_id)
  have bw': "0 \<le> bw'" "bw' \<le> 1" by (simp_all add: bw'_def)
  let ?res = "result @ [d]"
  have unfold: "sub_loop a b bw i result = sub_loop a b bw' (i + 1) ?res"
  proof (cases "sub < 0")
    case True
    then have "bw' = 1" "d = sub + 10" by (simp_all add: bw'_def d_def)
    with True i tc show ?thesis
      by (subst sub_loop.simps) (simp add: Let_def sub_def x_def y_def)
  next
    case False
    then have "bw' = 0" "d = sub" by (simp_all add: bw'_def d_def)
    with False i tc show ?thesis
      by (subst sub_loop.simps) (simp add: Let_def sub_def x_def y_def)
  qed
  have n: "n = length a - (i + 1)" using Suc.hyps by simp
  have "\<exists>k. (k = 0 \<or> k = 1) \<and> digits_ok (sub_loop a b bw' (i + 1) ?res) \<and>
       length (sub_loop a b bw' (i + 1) ?res) = length a \<and>
       val (sub_loop a b bw' (i + 1) ?res)
         = val ?res + 10 ^ (i + 1) * (val (drop (i + 1) a) - val (drop (i + 1) (take (length a) b)) - bw')
           + k * 10 ^ length a"
    using Suc.prems i d bw' by (intro Suc.hyps(1) [OF n]) simp_all
  then obtain k where k: "k = 0 \<or> k = 1"
    and ok: "digits_ok (sub_loop a b bw' (i + 1) ?res)"
    and len: "length (sub_loop a b bw' (i + 1) ?res) = length a"
    and v: "val (sub_loop a b bw' (i + 1) ?res)
         = val ?res + 10 ^ (i + 1) * (val (drop (i + 1) a) - val (drop (i + 1) (take (length a) b)) - bw')
           + k * 10 ^ length a"
    by blast
  define A where "A = val (drop (i + 1) a)"
  define B where "B = val (drop (i + 1) (take (length a) b))"
  have va: "val (drop i a) = x + 10 * A"
    using i by (simp add: val_drop x_def A_def)
  have vb: "val (drop i (take (length a) b)) = y + 10 * B"
    using i val_drop_guard [of i "take (length a) b"] by (simp add: y_def B_def)
  have "d + 10 * (A - B - bw') = (x + 10 * A) - (y + 10 * B) - bw"
    by (simp add: d_def sub_def)
  then have "10 ^ i * (d + 10 * (A - B - bw')) = 10 ^ i * ((x + 10 * A) - (y + 10 * B) - bw)"
    by (rule arg_cong)
  then have "10 ^ i * d + 10 ^ (i + 1) * (A - B - bw')
             = 10 ^ i * ((x + 10 * A) - (y + 10 * B) - bw)"
    by (simp add: algebra_simps)
  with v Suc.prems have "val (sub_loop a b bw' (i + 1) ?res)
         = val result + 10 ^ i * (val (drop i a) - val (drop i (take (length a) b)) - bw)
           + k * 10 ^ length a"
    unfolding va vb by (simp add: val_append A_def B_def)
  with k ok len show ?case unfolding unfold by blast
qed

lemma sub_loop_digits:
  assumes "digits_ok a" "digits_ok b"
  shows "digits_ok (sub_loop a b 0 0 [])" "length (sub_loop a b 0 0 []) = length a"
  using sub_loop_correct [OF assms, of 0 0 "[]"] by auto

lemma val_take_le:
  assumes "digits_ok b" "val b < 10 ^ n"
  shows "val (take n b) = val b"
proof (cases "n < length b")
  case False
  then show ?thesis by simp
next
  case True
  have "val b = val (take n b @ drop n b)" by simp
  also have "\<dots> = val (take n b) + 10 ^ n * val (drop n b)"
    using True by (simp add: val_append del: append_take_drop_id)
  finally have e: "val b = val (take n b) + 10 ^ n * val (drop n b)" .
  have t: "0 \<le> val (take n b)" using assms by (simp add: val_nonneg digits_ok_take)
  have dr: "0 \<le> val (drop n b)" using assms by (simp add: val_nonneg digits_ok_drop)
  have "val (drop n b) = 0"
  proof (rule ccontr)
    assume "val (drop n b) \<noteq> 0"
    with dr have "1 \<le> val (drop n b)" by simp
    then have "(10::int) ^ n * 1 \<le> 10 ^ n * val (drop n b)"
      by (intro mult_left_mono) simp_all
    with e t assms show False by simp
  qed
  with e show ?thesis by simp
qed

lemma op_sub_correct:
  assumes a: "digits_ok a" and b: "digits_ok b" and le: "val b \<le> val a"
  shows "canonical (op_sub a b)" "val (op_sub a b) = val a - val b"
proof -
  let ?r = "sub_loop a b 0 0 []"
  from sub_loop_correct [OF a b, of 0 0 "[]"]
  obtain k where k: "k = 0 \<or> k = 1" and ok: "digits_ok ?r" and len: "length ?r = length a"
    and v: "val ?r = val a - val (take (length a) b) + k * 10 ^ length a"
    by auto
  show "canonical (op_sub a b)" using ok by (simp add: op_sub_def canonical_strip)
  have "val b < 10 ^ length a" using le val_less [OF a] by simp
  with b have "val (take (length a) b) = val b" by (rule val_take_le)
  with v have v': "val ?r = val a - val b + k * 10 ^ length a" by simp
  have "val ?r < 10 ^ length a" using val_less [OF ok] len by simp
  with v' le k have "k = 0" by auto
  with v' show "val (op_sub a b) = val a - val b" by (simp add: op_sub_def val_strip)
qed

lemma op_sub_canonical: "digits_ok a \<Longrightarrow> digits_ok b \<Longrightarrow> canonical (op_sub a b)"
  by (simp add: op_sub_def canonical_strip sub_loop_digits)

subsection \<open>Multiplication\<close>

text \<open>
  Row \<open>i\<close> finds the buffer zero from index \<open>i + length b\<close> on, so the carry that leaves
  the row is stored there and the index never leaves the buffer.
\<close>

lemma mult_inner_correct:
  "digits_ok a \<Longrightarrow> digits_ok b \<Longrightarrow> digits_ok r \<Longrightarrow> i < length a \<Longrightarrow>
   length r = length a + length b \<Longrightarrow> j \<le> length b \<Longrightarrow> 0 \<le> c \<Longrightarrow> c \<le> 9 \<Longrightarrow>
   (\<forall>k. i + length b \<le> k \<and> k < length r \<longrightarrow> r ! k = 0) \<Longrightarrow>
   \<exists>r'. mult_inner a b i j c r = Inr r' \<and> digits_ok r' \<and> length r' = length r \<and>
        val r' = val r + 10 ^ (i + j) * (c + a ! i * val (drop j b)) \<and>
        (\<forall>k. i + 1 + length b \<le> k \<and> k < length r \<longrightarrow> r' ! k = 0)"
proof (induction "length b - j" arbitrary: j c r)
  case 0
  then have j: "j = length b" by simp
  show ?case
  proof (cases "c = 0")
    case True
    with j have "mult_inner a b i j c r = Inr r" by (subst mult_inner.simps) simp
    with True j "0.prems" show ?thesis by simp
  next
    case False
    from "0.prems" j have inr: "i + j < length r" by simp
    with "0.prems" j have z: "r ! (i + j) = 0" by simp
    from "0.prems" have sd: "c sdiv 10 = 0" "c smod 10 = c"
      by (simp_all add: sdiv_nonneg smod_nonneg)
    let ?r1 = "r[i + j := c]"
    have stop: "mult_inner a b i (j + 1) 0 ?r1 = Inr ?r1"
      using j by (subst mult_inner.simps) simp
    have "mult_inner a b i j c r = mult_inner a b i (j + 1) 0 ?r1"
      using False j inr z sd by (subst mult_inner.simps) (simp add: Let_def)
    with stop have res: "mult_inner a b i j c r = Inr ?r1" by simp
    have ok: "digits_ok ?r1" using "0.prems" by (simp add: digits_ok_update)
    have v: "val ?r1 = val r + 10 ^ (i + j) * (c + a ! i * val (drop j b))"
      using inr z j by (simp add: val_update)
    have "\<forall>k. i + 1 + length b \<le> k \<and> k < length r \<longrightarrow> ?r1 ! k = 0"
      using "0.prems" j by simp
    with res ok v show ?thesis by simp
  qed
next
  case (Suc n)
  then have j: "j < length b" by simp
  with Suc.prems have inr: "i + j < length r" by simp
  define old where "old = r ! (i + j)"
  define x where "x = a ! i"
  define y where "y = b ! j"
  define sum where "sum = old + c + x * y"
  have old: "0 \<le> old" "old \<le> 9"
    using Suc.prems inr digits_ok_nth [of r "i + j"] by (simp_all add: old_def)
  have x: "0 \<le> x" "x \<le> 9"
    using Suc.prems digits_ok_nth [of a i] by (simp_all add: x_def)
  have y: "0 \<le> y" "y \<le> 9"
    using Suc.prems j digits_ok_nth [of b j] by (simp_all add: y_def)
  have xy: "0 \<le> x * y" "x * y \<le> 81"
    using x y mult_mono [of x 9 y 9] by simp_all
  with old Suc.prems have sum: "0 \<le> sum" "sum \<le> 99" by (simp_all add: sum_def)
  then have sd: "sum sdiv 10 = sum div 10" "sum smod 10 = sum mod 10"
    by (simp_all add: sdiv_nonneg smod_nonneg)
  define q where "q = sum div 10"
  define m where "m = sum mod 10"
  have q: "0 \<le> q" "q \<le> 9" using sum by (simp_all add: q_def)
  have m: "0 \<le> m" "m \<le> 9" using sum by (simp_all add: m_def)
  have qm: "sum = m + 10 * q" by (simp add: q_def m_def)
  let ?r1 = "r[i + j := m]"
  have unfold: "mult_inner a b i j c r = mult_inner a b i (j + 1) q ?r1"
    using j inr sd
    by (subst mult_inner.simps) (simp add: Let_def sum_def old_def x_def y_def q_def m_def)
  have n: "n = length b - (j + 1)" using Suc.hyps by simp
  have "\<exists>r'. mult_inner a b i (j + 1) q ?r1 = Inr r' \<and> digits_ok r' \<and> length r' = length ?r1 \<and>
        val r' = val ?r1 + 10 ^ (i + (j + 1)) * (q + a ! i * val (drop (j + 1) b)) \<and>
        (\<forall>k. i + 1 + length b \<le> k \<and> k < length ?r1 \<longrightarrow> r' ! k = 0)"
    using Suc.prems j q m by (intro Suc.hyps(1) [OF n]) (simp_all add: digits_ok_update)
  then obtain r' where r': "mult_inner a b i (j + 1) q ?r1 = Inr r'" "digits_ok r'"
    "length r' = length r"
    "val r' = val ?r1 + 10 ^ (i + (j + 1)) * (q + x * val (drop (j + 1) b))"
    "\<forall>k. i + 1 + length b \<le> k \<and> k < length r \<longrightarrow> r' ! k = 0"
    by (auto simp: x_def)
  define B where "B = val (drop (j + 1) b)"
  have vb: "val (drop j b) = y + 10 * B"
    using j by (simp add: val_drop y_def B_def)
  have v1: "val ?r1 = val r + (m - old) * 10 ^ (i + j)"
    using inr by (simp add: val_update old_def)
  have "(m - old) + 10 * (q + x * B) = c + x * (y + 10 * B)"
    using qm by (simp add: sum_def algebra_simps)
  then have "10 ^ (i + j) * ((m - old) + 10 * (q + x * B)) = 10 ^ (i + j) * (c + x * (y + 10 * B))"
    by (rule arg_cong)
  then have "(m - old) * 10 ^ (i + j) + 10 ^ (i + (j + 1)) * (q + x * B)
             = 10 ^ (i + j) * (c + x * (y + 10 * B))"
    by (simp add: algebra_simps)
  with r'(4) v1 have "val r' = val r + 10 ^ (i + j) * (c + a ! i * val (drop j b))"
    unfolding vb B_def x_def by simp
  with r' unfold show ?case by simp
qed

lemma mult_outer_correct:
  "digits_ok a \<Longrightarrow> digits_ok b \<Longrightarrow> digits_ok r \<Longrightarrow> i \<le> length a \<Longrightarrow>
   length r = length a + length b \<Longrightarrow>
   (\<forall>k. i + length b \<le> k \<and> k < length r \<longrightarrow> r ! k = 0) \<Longrightarrow>
   \<exists>r'. mult_outer a b i r = Inr r' \<and> digits_ok r' \<and>
        val r' = val r + 10 ^ i * (val (drop i a) * val b)"
proof (induction "length a - i" arbitrary: i r)
  case 0
  then have "mult_outer a b i r = Inr r" by (subst mult_outer.simps) simp
  with "0.prems" "0.hyps" show ?case by simp
next
  case (Suc n)
  then have i: "i < length a" by simp
  from mult_inner_correct [OF Suc.prems(1,2,3) i Suc.prems(5), of 0 0] Suc.prems(6)
  obtain r1 where r1: "mult_inner a b i 0 0 r = Inr r1" "digits_ok r1" "length r1 = length r"
    "val r1 = val r + 10 ^ i * (a ! i * val b)"
    "\<forall>k. i + 1 + length b \<le> k \<and> k < length r \<longrightarrow> r1 ! k = 0"
    by auto
  have unfold: "mult_outer a b i r = mult_outer a b (i + 1) r1"
    using i r1(1) by (subst mult_outer.simps) simp
  have n: "n = length a - (i + 1)" using Suc.hyps by simp
  have "\<exists>r'. mult_outer a b (i + 1) r1 = Inr r' \<and> digits_ok r' \<and>
        val r' = val r1 + 10 ^ (i + 1) * (val (drop (i + 1) a) * val b)"
    using Suc.prems i r1 by (intro Suc.hyps(1) [OF n]) simp_all
  then obtain r' where r': "mult_outer a b (i + 1) r1 = Inr r'" "digits_ok r'"
    "val r' = val r1 + 10 ^ (i + 1) * (val (drop (i + 1) a) * val b)"
    by blast
  have va: "val (drop i a) = a ! i + 10 * val (drop (i + 1) a)"
    using i by (simp add: val_drop)
  have "val r' = val r + 10 ^ i * (val (drop i a) * val b)"
    unfolding va r'(3) r1(4) by (simp add: algebra_simps)
  with r' unfold show ?case by simp
qed

lemma op_mult_correct:
  assumes "digits_ok a" "digits_ok b"
  shows "\<exists>r. op_mult a b = Inr r \<and> canonical r \<and> val r = val a * val b"
proof -
  let ?r0 = "replicate (length a + length b) (0::int)"
  from mult_outer_correct [OF assms, of ?r0 0]
  obtain r' where "mult_outer a b 0 ?r0 = Inr r'" "digits_ok r'" "val r' = val a * val b"
    by auto
  then show ?thesis by (simp add: op_mult_def canonical_strip val_strip)
qed

subsection \<open>Division and modulo\<close>

text \<open>
  The running remainder \<open>current\<close> is canonical and below the divisor between two
  iterations; with the next digit in front it is canonical or the single digit 0, which
  \<open>operator<=\<close> still orders correctly against a canonical product.
\<close>

lemma test_correct:
  assumes b: "digits_ok b" and cur: "digits_ok cur" "length cur \<le> 1 \<or> last cur \<noteq> 0"
    and m: "0 \<le> m"
  shows "\<exists>p. op_mult b (BigInt_int m) = Inr p \<and> canonical p \<and> val p = val b * m \<and>
             (op_le p cur \<longleftrightarrow> val b * m \<le> val cur)"
proof -
  from BigInt_int_correct [OF m] have cm: "digits_ok (BigInt_int m)" "val (BigInt_int m) = m"
    by (simp_all add: canonical_def)
  from op_mult_correct [OF b cm(1)] cm(2)
  obtain p where p: "op_mult b (BigInt_int m) = Inr p" "canonical p" "val p = val b * m"
    by auto
  from op_le_correct_gen [OF p(2) cur] p show ?thesis by simp
qed

lemma int_div_unique_pos:
  fixes v w x :: int
  assumes "x * w \<le> v" "v < (x + 1) * w"
  shows "v div w = x"
proof -
  from assms have "0 < w" by (simp add: algebra_simps)
  have "v = w * x + (v - x * w)" by simp
  moreover have "0 \<le> v - x * w" using assms by simp
  moreover have "v - x * w < w" using assms by (simp add: algebra_simps)
  ultimately show ?thesis using \<open>0 < w\<close> by (metis int_div_pos_eq)
qed

lemma search_correct:
  assumes b: "digits_ok b" and cur: "digits_ok cur" "length cur \<le> 1 \<or> last cur \<noteq> 0"
  shows "0 \<le> l \<Longrightarrow> l \<le> r + 1 \<Longrightarrow> x = (if l = 0 then 0 else l - 1) \<Longrightarrow>
         x * val b \<le> val cur \<Longrightarrow> val cur < (r + 1) * val b \<Longrightarrow>
         search b cur l r x = Inr (val cur div val b)"
proof (induction "nat (r - l + 1)" arbitrary: l r x rule: less_induct)
  case less
  show ?case
  proof (cases "l \<le> r")
    case False
    with less.prems have l: "l = r + 1" by simp
    have "l \<noteq> 0"
    proof
      assume "l = 0"
      with l less.prems have "val cur < 0" by simp
      with cur(1) show False using val_nonneg [of cur] by simp
    qed
    with less.prems have x: "x = l - 1" by simp
    with less.prems l have "val cur div val b = x" by (intro int_div_unique_pos) simp_all
    with False show ?thesis by (subst search.simps) simp
  next
    case True
    define m where "m = (l + r) div 2"
    have sd: "(l + r) sdiv 2 = m"
      using less.prems True by (simp add: m_def signed_divide_int_def sgn_if)
    have m: "l \<le> m" "m \<le> r" "0 \<le> m" using less.prems True by (simp_all add: m_def)
    from test_correct [OF b cur m(3)]
    obtain p where p: "op_mult b (BigInt_int m) = Inr p"
      "op_le p cur \<longleftrightarrow> val b * m \<le> val cur"
      by auto
    show ?thesis
    proof (cases "op_le p cur")
      case le: True
      have unfold: "search b cur l r x = search b cur (m + 1) r m"
        using True sd p(1) le by (subst search.simps) (simp add: Let_def)
      have "search b cur (m + 1) r m = Inr (val cur div val b)"
        using less.prems m p(2) le
        by (intro less.hyps) (simp_all add: mult.commute)
      with unfold show ?thesis by simp
    next
      case nle: False
      have unfold: "search b cur l r x = search b cur l (m - 1) x"
        using True sd p(1) nle by (subst search.simps) (simp add: Let_def)
      have "search b cur l (m - 1) x = Inr (val cur div val b)"
        using less.prems m p(2) nle
        by (intro less.hyps) (simp_all add: mult.commute)
      with unfold show ?thesis by simp
    qed
  qed
qed

lemma digit_step:
  assumes b: "digits_ok b" and pos: "0 < val b"
    and cur: "canonical cur" "val cur < val b" and d: "0 \<le> d" "d \<le> 9"
  shows "\<exists>x p. search b (d # cur) 0 10 0 = Inr x \<and> x = (d + 10 * val cur) div val b \<and>
               0 \<le> x \<and> x \<le> 9 \<and> op_mult b (BigInt_int x) = Inr p \<and>
               canonical (op_sub (d # cur) p) \<and>
               val (op_sub (d # cur) p) = (d + 10 * val cur) mod val b"
proof -
  let ?c1 = "d # cur"
  define N where "N = d + 10 * val cur"
  from cur have okc: "digits_ok cur" by (simp add: canonical_def)
  with d have ok1: "digits_ok ?c1" by simp
  have shape: "length ?c1 \<le> 1 \<or> last ?c1 \<noteq> 0"
    using cur(1) by (cases cur) (auto simp: canonical_def)
  have N0: "0 \<le> N" using d okc val_nonneg [of cur] by (simp add: N_def)
  have "val cur + 1 \<le> val b" using cur(2) by simp
  then have "10 * val cur + 10 \<le> 10 * val b" by simp
  with d have N10: "N < 10 * val b" by (simp add: N_def)
  have vN: "val ?c1 = N" by (simp add: N_def)
  define x where "x = N div val b"
  have s: "search b ?c1 0 10 0 = Inr x"
    using search_correct [OF b ok1 shape, of 0 10 0] N0 N10 vN by (simp add: x_def)
  have x0: "0 \<le> x" using N0 pos by (simp add: x_def pos_imp_zdiv_nonneg_iff)
  have xb: "val b * x \<le> N"
  proof -
    have "0 \<le> N mod val b" using pos by simp
    moreover have "val b * x + N mod val b = N" unfolding x_def by simp
    ultimately show ?thesis by linarith
  qed
  have x9: "x \<le> 9"
  proof (rule ccontr)
    assume "\<not> x \<le> 9"
    then have "10 \<le> x" by simp
    then have "val b * 10 \<le> val b * x" using pos by (intro mult_left_mono) simp_all
    with xb N10 show False by simp
  qed
  from test_correct [OF b ok1 shape x0]
  obtain p where p: "op_mult b (BigInt_int x) = Inr p" "canonical p" "val p = val b * x"
    by auto
  have le: "val p \<le> val ?c1" unfolding p(3) vN using xb .
  from p(2) have okp: "digits_ok p" by (simp add: canonical_def)
  from op_sub_correct [OF ok1 okp le]
  have "canonical (op_sub ?c1 p)" "val (op_sub ?c1 p) = N - val b * x"
    unfolding vN p(3) by simp_all
  moreover have "N - val b * x = N mod val b"
    unfolding x_def by (simp add: minus_mult_div_eq_mod)
  ultimately show ?thesis using s x0 x9 p(1) unfolding x_def N_def by simp
qed

lemma div_mod_step:
  fixes P T x w N :: int
  assumes "0 < w"
  shows "(P * N + T) div w = P * (N div w) + (P * (N mod w) + T) div w"
    and "(P * N + T) mod w = (P * (N mod w) + T) mod w"
proof -
  define M where "M = N mod w"
  define Q where "Q = N div w"
  have "N = M + w * Q" by (simp add: M_def Q_def)
  then have "P * N + T = (P * M + T) + w * (P * Q)" by (simp add: algebra_simps)
  then have e: "P * N + T = (P * (N mod w) + T) + w * (P * (N div w))"
    unfolding M_def Q_def .
  show "(P * N + T) div w = P * (N div w) + (P * (N mod w) + T) div w"
    using assms by (subst e) simp
  show "(P * N + T) mod w = (P * (N mod w) + T) mod w"
    by (subst e) simp
qed

lemma div_loop_correct:
  assumes a: "digits_ok a" and b: "digits_ok b" and pos: "0 < val b"
  shows "k \<le> length a \<Longrightarrow> canonical cur \<Longrightarrow> val cur < val b \<Longrightarrow> digits_ok res \<Longrightarrow>
         \<exists>q. div_loop a b k cur res = Inr q \<and> digits_ok q \<and>
             val q = (10 ^ k * val cur + val (take k a)) div val b + 10 ^ k * val res"
proof (induction k arbitrary: cur res)
  case 0
  with pos show ?case by (simp add: canonical_def val_nonneg)
next
  case (Suc i)
  then have i: "i < length a" by simp
  then have d: "0 \<le> a ! i" "a ! i \<le> 9" using a digits_ok_nth [of a i] by simp_all
  define N where "N = a ! i + 10 * val cur"
  from digit_step [OF b pos Suc.prems(2,3) d]
  obtain x p where s: "search b (a ! i # cur) 0 10 0 = Inr x" and x: "x = N div val b"
    "0 \<le> x" "x \<le> 9" and p: "op_mult b (BigInt_int x) = Inr p"
    and c': "canonical (op_sub (a ! i # cur) p)"
    "val (op_sub (a ! i # cur) p) = N mod val b"
    unfolding N_def by blast
  let ?cur' = "op_sub (a ! i # cur) p"
  have unfold: "div_loop a b (Suc i) cur res = div_loop a b i ?cur' (x # res)"
    using s p by (simp add: Let_def)
  have lt: "val ?cur' < val b" using pos c'(2) by simp
  have "\<exists>q. div_loop a b i ?cur' (x # res) = Inr q \<and> digits_ok q \<and>
             val q = (10 ^ i * val ?cur' + val (take i a)) div val b + 10 ^ i * val (x # res)"
    using Suc.prems i x c'(1) lt by (intro Suc.IH) simp_all
  then obtain q where q: "div_loop a b i ?cur' (x # res) = Inr q" "digits_ok q"
    "val q = (10 ^ i * (N mod val b) + val (take i a)) div val b + 10 ^ i * (N div val b + 10 * val res)"
    unfolding c'(2) x(1) by auto
  have "10 ^ Suc i * val cur + val (take (Suc i) a) = 10 ^ i * N + val (take i a)"
    using i by (simp add: val_take_Suc N_def algebra_simps)
  then have "(10 ^ Suc i * val cur + val (take (Suc i) a)) div val b
             = 10 ^ i * (N div val b) + (10 ^ i * (N mod val b) + val (take i a)) div val b"
    using div_mod_step(1) [OF pos, of "10 ^ i" N "val (take i a)"] by simp
  with q(3) have "val q = (10 ^ Suc i * val cur + val (take (Suc i) a)) div val b
                          + 10 ^ Suc i * val res"
    by (simp add: algebra_simps)
  with q(1,2) unfold show ?case by simp
qed

lemma mod_loop_correct:
  assumes a: "digits_ok a" and b: "digits_ok b" and pos: "0 < val b"
  shows "k \<le> length a \<Longrightarrow> canonical cur \<Longrightarrow> val cur < val b \<Longrightarrow>
         \<exists>r. mod_loop a b k cur = Inr r \<and> canonical r \<and>
             val r = (10 ^ k * val cur + val (take k a)) mod val b"
proof (induction k arbitrary: cur)
  case 0
  then show ?case by (simp add: canonical_def val_nonneg)
next
  case (Suc i)
  then have i: "i < length a" by simp
  then have d: "0 \<le> a ! i" "a ! i \<le> 9" using a digits_ok_nth [of a i] by simp_all
  define N where "N = a ! i + 10 * val cur"
  from digit_step [OF b pos Suc.prems(2,3) d]
  obtain x p where s: "search b (a ! i # cur) 0 10 0 = Inr x"
    and p: "op_mult b (BigInt_int x) = Inr p"
    and c': "canonical (op_sub (a ! i # cur) p)"
    "val (op_sub (a ! i # cur) p) = N mod val b"
    unfolding N_def by blast
  let ?cur' = "op_sub (a ! i # cur) p"
  have unfold: "mod_loop a b (Suc i) cur = mod_loop a b i ?cur'"
    using s p by (simp add: Let_def)
  have lt: "val ?cur' < val b" using pos c'(2) by simp
  have "\<exists>r. mod_loop a b i ?cur' = Inr r \<and> canonical r \<and>
             val r = (10 ^ i * val ?cur' + val (take i a)) mod val b"
    using Suc.prems i c'(1) lt by (intro Suc.IH) simp_all
  then obtain r where r: "mod_loop a b i ?cur' = Inr r" "canonical r"
    "val r = (10 ^ i * (N mod val b) + val (take i a)) mod val b"
    unfolding c'(2) by auto
  have "10 ^ Suc i * val cur + val (take (Suc i) a) = 10 ^ i * N + val (take i a)"
    using i by (simp add: val_take_Suc N_def algebra_simps)
  then have "(10 ^ Suc i * val cur + val (take (Suc i) a)) mod val b
             = (10 ^ i * (N mod val b) + val (take i a)) mod val b"
    using div_mod_step(2) [OF pos, of "10 ^ i" N "val (take i a)"] by simp
  with r unfold show ?case by simp
qed

lemma op_div_correct:
  assumes a: "digits_ok a" and b: "digits_ok b" and nz: "val b \<noteq> 0"
  shows "\<exists>q. op_div a b = Inr q \<and> canonical q \<and> val q = val a div val b"
proof -
  from b nz have pos: "0 < val b" using val_nonneg [of b] by simp
  from nz have ne: "b \<noteq> []" by auto
  from div_loop_correct [OF a b pos, of "length a" "[]" "[]"] pos
  obtain q where "div_loop a b (length a) [] [] = Inr q" "digits_ok q"
    "val q = val a div val b"
    by auto
  with ne show ?thesis
    by (simp add: op_div_def op_eq_def BigInt_int_nonpos canonical_strip val_strip)
qed

lemma op_mod_correct:
  assumes a: "digits_ok a" and b: "digits_ok b" and nz: "val b \<noteq> 0"
  shows "\<exists>r. op_mod a b = Inr r \<and> canonical r \<and> val r = val a mod val b"
proof -
  from b nz have pos: "0 < val b" using val_nonneg [of b] by simp
  from nz have ne: "b \<noteq> []" by auto
  from mod_loop_correct [OF a b pos, of "length a" "[]"] pos
  obtain r where "mod_loop a b (length a) [] = Inr r" "canonical r"
    "val r = val a mod val b"
    by auto
  with ne show ?thesis
    by (simp add: op_mod_def op_eq_def BigInt_int_nonpos)
qed

subsection \<open>A canonical value below a digit sequence\<close>

lemma op_le_strict:
  assumes r: "canonical r" and b: "digits_ok b" and lt: "val r < val b"
  shows "op_le r b" and "\<not> op_le b r"
proof -
  from r have okr: "digits_ok r" by (simp add: canonical_def)
  have len: "length r \<le> length b"
  proof (rule ccontr)
    assume "\<not> length r \<le> length b"
    then have l: "length b < length r" and ne: "r \<noteq> []" by auto
    have "val b < 10 ^ length b" using b by (rule val_less)
    also have "(10::int) ^ length b \<le> 10 ^ (length r - 1)"
      using l by (intro power_increasing) simp_all
    also have "\<dots> \<le> val r" using r ne by (rule canonical_lower)
    finally show False using lt by simp
  qed
  show "op_le r b"
  proof (cases "length r = length b")
    case True
    with le_loop_val [OF okr b, of "length r"] lt show ?thesis by (simp add: op_le_def)
  next
    case False
    with len show ?thesis by (simp add: op_le_def)
  qed
  show "\<not> op_le b r"
  proof (cases "length r = length b")
    case True
    with le_loop_val [OF b okr, of "length r"] lt show ?thesis by (simp add: op_le_def)
  next
    case False
    with len show ?thesis by (simp add: op_le_def)
  qed
qed

subsection \<open>Printing and reading back\<close>

lemma show_int_digit: "0 \<le> d \<Longrightarrow> d \<le> 9 \<Longrightarrow> show_int d = [char_of (48 + nat d)]"
  by (simp add: show_int_def show_nat.simps)

lemma print_loop_digits:
  "digits_ok v \<Longrightarrow> k \<le> length v \<Longrightarrow>
   print_loop v k = map (\<lambda>d. char_of (48 + nat d)) (rev (take k v))"
proof (induction k)
  case 0
  then show ?case by simp
next
  case (Suc k)
  then have "0 \<le> v ! k \<and> v ! k \<le> 9" using digits_ok_nth [of v k] by simp
  with Suc show ?case by (simp add: take_Suc_conv_app_nth show_int_digit)
qed

lemma BigInt_string_loop_eq:
  "k \<le> length s \<Longrightarrow>
   BigInt_string_loop s k vi = vi @ map (\<lambda>c. to_char (of_char c - 48)) (rev (take k s))"
  by (induction k arbitrary: vi) (simp_all add: take_Suc_conv_app_nth)

lemma digit_roundtrip:
  assumes "0 \<le> d" "d \<le> 9"
  shows "to_char (of_char (char_of (48 + nat d)) - 48) = d"
proof -
  have "(of_char (char_of (48 + nat d)) :: int) = int (of_char (char_of (48 + nat d)))"
    by (simp only: of_nat_of_char)
  also have "\<dots> = int ((48 + nat d) mod 256)" by simp
  also have "\<dots> = 48 + d" using assms by simp
  finally show ?thesis using assms by (simp add: to_char_def)
qed

lemma print_roundtrip: "digits_ok v \<Longrightarrow> BigInt_string (print v) = v"
proof -
  assume ok: "digits_ok v"
  have "BigInt_string (print v)
        = map (\<lambda>c. to_char (of_char c - 48)) (rev (print v))"
    by (simp add: BigInt_string_def BigInt_string_loop_eq)
  also have "rev (print v) = map (\<lambda>d. char_of (48 + nat d)) v"
    using ok by (simp add: print_def print_loop_digits rev_map)
  also have "map (\<lambda>c. to_char (of_char c - 48)) (map (\<lambda>d. char_of (48 + nat d)) v) = map (\<lambda>d. d) v"
    unfolding map_map
  proof (rule map_cong [OF refl])
    fix d assume "d \<in> set v"
    with ok have "0 \<le> d \<and> d \<le> 9" by (simp add: digits_ok_def list_all_iff)
    then show "((\<lambda>c. to_char (of_char c - 48)) \<circ> (\<lambda>d. char_of (48 + nat d))) d = d"
      by (simp add: digit_roundtrip)
  qed
  finally show ?thesis by simp
qed

subsection \<open>Factorial\<close>

lemma fact_loop_correct:
  assumes n: "canonical n"
  shows "canonical i \<Longrightarrow> canonical result \<Longrightarrow> 2 \<le> val i \<Longrightarrow> val i \<le> val n + 1 \<Longrightarrow>
         val result = fact (nat (val i - 1)) \<Longrightarrow>
         \<exists>r. fact_loop n i result = Some (Inr r) \<and> canonical r \<and> val r = fact (nat (val n))"
proof (induction "nat (val n + 1 - val i)" arbitrary: i result)
  case 0
  then have e: "val i = val n + 1" by simp
  with "0.prems" n have "\<not> op_le i n" by (simp add: op_le_correct)
  then have "fact_loop n i result = Some (Inr result)" by (subst fact_loop.simps) simp
  with "0.prems" e show ?case by simp
next
  case (Suc m)
  then have le: "val i \<le> val n" by simp
  with Suc.prems n have l: "op_le i n" by (simp add: op_le_correct)
  from Suc.prems have oki: "digits_ok i" and okr: "digits_ok result"
    by (simp_all add: canonical_def)
  from op_mult_correct [OF okr oki]
  obtain r1 where r1: "op_mult result i = Inr r1" "canonical r1" "val r1 = val result * val i"
    by blast
  from BigInt_int_correct [of 1] have one: "canonical (BigInt_int 1)" "val (BigInt_int 1) = 1"
    by simp_all
  then have ok1: "digits_ok (BigInt_int 1)" by (simp add: canonical_def)
  from op_add_correct [OF oki ok1] Suc.prems(1) one
  obtain i1 where i1: "op_add i (BigInt_int 1) = Inr i1" "canonical i1" "val i1 = val i + 1"
    by auto
  have unfold: "fact_loop n i result = fact_loop n i1 r1"
    using l r1(1) i1(1) by (subst fact_loop.simps) simp
  have "nat (val i) = Suc (nat (val i - 1))" using Suc.prems by simp
  then have "(fact (nat (val i)) :: int) = val i * fact (nat (val i - 1))"
    using Suc.prems by (simp add: algebra_simps)
  with r1(3) Suc.prems have v1: "val r1 = fact (nat (val i1 - 1))"
    by (simp add: i1(3) mult.commute)
  have m: "m = nat (val n + 1 - val i1)" using Suc.hyps(2) i1(3) by simp
  have "\<exists>r. fact_loop n i1 r1 = Some (Inr r) \<and> canonical r \<and> val r = fact (nat (val n))"
    using i1 r1 Suc.prems le v1 by (intro Suc.hyps(1) [OF m]) simp_all
  with unfold show ?case by simp
qed

lemma fact_BigInt_correct:
  assumes n: "canonical n"
  shows "\<exists>r. fact_BigInt n = Some (Inr r) \<and> canonical r \<and> val r = fact (nat (val n))"
proof -
  from BigInt_int_correct [of 1] have one: "canonical (BigInt_int 1)" "val (BigInt_int 1) = 1"
    by simp_all
  from BigInt_int_correct [of 2] have two: "canonical (BigInt_int 2)" "val (BigInt_int 2) = 2"
    by simp_all
  show ?thesis
  proof (cases "n = []")
    case True
    have "\<not> op_le (BigInt_int 2) []"
      using op_le_correct [OF two(1), of "[]"] two(2) by simp
    with True have "fact_BigInt n = Some (Inr (BigInt_int 1))"
      unfolding fact_BigInt_def by (subst fact_loop.simps) simp
    with True one show ?thesis by simp
  next
    case False
    with n have "0 < val n" by (rule canonical_pos)
    then have "val (BigInt_int 2) \<le> val n + 1" using two by simp
    from fact_loop_correct [OF n two(1) one(1) _ this] two one
    show ?thesis by (simp add: fact_BigInt_def)
  qed
qed

section \<open>Properties of the specification\<close>

text \<open>
  C1. For every dividend \<open>a\<close> and every divisor \<open>b\<close> of non-zero value (digits in 0..9,
  most significant zeros allowed), \<open>a / b\<close> and \<open>a % b\<close> return a quotient \<open>q\<close> and a
  remainder \<open>r\<close> with \<open>value a = value b * value q + value r\<close> and
  \<open>0 \<le> value r < value b\<close>; \<open>a % b <= b\<close> is true, and the inequality is strict
  (\<open>a % b == b\<close> and \<open>b <= a % b\<close> are false) for every such divisor, so in particular
  whenever \<open>b\<close> is not 1. For a canonical dividend, \<open>a / b * b + a % b == a\<close>.
\<close>

theorem division_identity:
  assumes "digits_ok a" and "digits_ok b" and "val b \<noteq> 0"
  shows "\<exists>q r. op_div a b = Inr q \<and> op_mod a b = Inr r
           \<and> val a = val b * val q + val r \<and> 0 \<le> val r \<and> val r < val b
           \<and> op_le r b \<and> \<not> op_eq r b \<and> \<not> op_le b r
           \<and> (canonical a \<longrightarrow>
                 (\<exists>p s. op_mult q b = Inr p \<and> op_add p r = Inr s \<and> op_eq s a))"
proof -
  from assms have pos: "0 < val b" using val_nonneg [of b] by simp
  from op_div_correct [OF assms]
  obtain q where q: "op_div a b = Inr q" "canonical q" "val q = val a div val b" by blast
  from op_mod_correct [OF assms]
  obtain r where r: "op_mod a b = Inr r" "canonical r" "val r = val a mod val b" by blast
  have id: "val a = val b * val q + val r" unfolding q(3) r(3) by simp
  have r0: "0 \<le> val r" and rb: "val r < val b" using pos by (simp_all add: r(3))
  from op_le_strict [OF r(2) assms(2) rb] have le: "op_le r b" "\<not> op_le b r" .
  from rb have ne: "\<not> op_eq r b" by (auto simp: op_eq_def)
  have recompose: "\<exists>p s. op_mult q b = Inr p \<and> op_add p r = Inr s \<and> op_eq s a" if ca: "canonical a"
  proof -
    from q(2) r(2) have okq: "digits_ok q" and okr: "digits_ok r"
      by (simp_all add: canonical_def)
    from op_mult_correct [OF okq assms(2)]
    obtain p where p: "op_mult q b = Inr p" "canonical p" "val p = val q * val b" by blast
    then have okp: "digits_ok p" by (simp add: canonical_def)
    from op_add_correct [OF okp okr] p(2) r(2)
    obtain s where s: "op_add p r = Inr s" "canonical s" "val s = val p + val r" by auto
    have "val s = val a" unfolding s(3) p(3) id by (simp add: mult.commute)
    with s(2) ca have "s = a" by (intro canonical_unique)
    with p(1) s(1) show ?thesis by (simp add: op_eq_def)
  qed
  from q(1) r(1) id r0 rb le ne recompose show ?thesis by blast
qed

theorem division_identity_witness:
  "digits_ok [4, 3, 2, 1, 0] \<and> digits_ok [5, 2, 0] \<and> val [5, 2, 0] \<noteq> 0
   \<and> op_div [4, 3, 2, 1, 0] [5, 2, 0] = Inr [9, 4] \<and> op_mod [4, 3, 2, 1, 0] [5, 2, 0] = Inr [9]
   \<and> val [4, 3, 2, 1, 0] = val [5, 2, 0] * val [9, 4] + val [9]
   \<and> op_le [9] [5, 2, 0] \<and> \<not> op_le [5, 2, 0] [9]"
proof -
  have h: "digits_ok [4, 3, 2, 1, 0]" "digits_ok [5, 2, 0]" "val [5, 2, 0] \<noteq> 0"
    by simp_all
  have ev: "op_div [4, 3, 2, 1, 0] [5, 2, 0] = Inr [9, 4]"
    "op_mod [4, 3, 2, 1, 0] [5, 2, 0] = Inr [9]"
    by code_simp+
  from division_identity [OF h] ev h show ?thesis by auto
qed

text \<open>
  C2. Dividing by the canonical zero (\<open>BigInt(0)\<close>, the empty vector) throws in both
  operators, whatever the dividend: \<open>operator/\<close> throws "Division by zero",
  \<open>operator%\<close> throws "Modulo by zero", and no value is returned. With a divisor of
  non-zero value neither operator fails.
\<close>

theorem division_by_zero_throws:
  "op_div a (BigInt_int 0) = Inl (Thrown ''Division by zero'')
   \<and> op_mod a (BigInt_int 0) = Inl (Thrown ''Modulo by zero'')
   \<and> (digits_ok a \<and> digits_ok b \<and> val b \<noteq> 0
        \<longrightarrow> (\<exists>q. op_div a b = Inr q) \<and> (\<exists>r. op_mod a b = Inr r))"
proof -
  have "op_div a (BigInt_int 0) = Inl (Thrown ''Division by zero'')"
    by (simp add: op_div_def op_eq_def)
  moreover have "op_mod a (BigInt_int 0) = Inl (Thrown ''Modulo by zero'')"
    by (simp add: op_mod_def op_eq_def)
  moreover have "(\<exists>q. op_div a b = Inr q) \<and> (\<exists>r. op_mod a b = Inr r)"
    if "digits_ok a \<and> digits_ok b \<and> val b \<noteq> 0"
    using that op_div_correct [of a b] op_mod_correct [of a b] by blast
  ultimately show ?thesis by blast
qed

theorem division_by_zero_throws_witness:
  "op_div [7, 1] (BigInt_int 0) = Inl (Thrown ''Division by zero'')
   \<and> op_mod [7, 1] (BigInt_int 0) = Inl (Thrown ''Modulo by zero'')
   \<and> digits_ok [7, 1] \<and> digits_ok [3] \<and> val [3] \<noteq> 0
   \<and> (\<exists>q. op_div [7, 1] [3] = Inr q) \<and> (\<exists>r. op_mod [7, 1] [3] = Inr r)"
  using division_by_zero_throws [of "[7, 1]" "[3]"] by simp

text \<open>
  C3. For non-negative machine integers \<open>a\<close> and \<open>b\<close>: if \<open>a + b\<close> is representable,
  \<open>BigInt(a) + BigInt(b) == BigInt(a + b)\<close>; if \<open>a * b\<close> is representable,
  \<open>BigInt(a) * BigInt(b) == BigInt(a * b)\<close>.
\<close>

theorem int_constructor_respects_add_mult:
  assumes "0 \<le> a" and "a \<le> INT_MAX" and "0 \<le> b" and "b \<le> INT_MAX"
  shows "(a + b \<le> INT_MAX \<longrightarrow>
            (\<exists>s. op_add (BigInt_int a) (BigInt_int b) = Inr s \<and> op_eq s (BigInt_int (a + b))))
       \<and> (a * b \<le> INT_MAX \<longrightarrow>
            (\<exists>p. op_mult (BigInt_int a) (BigInt_int b) = Inr p \<and> op_eq p (BigInt_int (a * b))))"
proof -
  from assms have ca: "canonical (BigInt_int a)" "val (BigInt_int a) = a"
    and cb: "canonical (BigInt_int b)" "val (BigInt_int b) = b"
    by (simp_all add: BigInt_int_correct)
  then have ok: "digits_ok (BigInt_int a)" "digits_ok (BigInt_int b)"
    by (simp_all add: canonical_def)
  from op_add_correct [OF ok] ca cb
  obtain s where s: "op_add (BigInt_int a) (BigInt_int b) = Inr s" "canonical s" "val s = a + b"
    by auto
  from assms have "canonical (BigInt_int (a + b))" "val (BigInt_int (a + b)) = a + b"
    by (simp_all add: BigInt_int_correct)
  with s have "s = BigInt_int (a + b)" by (intro canonical_unique) simp_all
  with s(1) have add: "\<exists>s. op_add (BigInt_int a) (BigInt_int b) = Inr s \<and> op_eq s (BigInt_int (a + b))"
    by (simp add: op_eq_def)
  from op_mult_correct [OF ok] ca cb
  obtain p where p: "op_mult (BigInt_int a) (BigInt_int b) = Inr p" "canonical p" "val p = a * b"
    by auto
  from assms have "canonical (BigInt_int (a * b))" "val (BigInt_int (a * b)) = a * b"
    by (simp_all add: BigInt_int_correct)
  with p have "p = BigInt_int (a * b)" by (intro canonical_unique) simp_all
  with p(1) have "\<exists>p. op_mult (BigInt_int a) (BigInt_int b) = Inr p \<and> op_eq p (BigInt_int (a * b))"
    by (simp add: op_eq_def)
  with add show ?thesis by blast
qed

theorem int_constructor_respects_add_mult_witness:
  "(0::int) \<le> 1234 \<and> 1234 \<le> INT_MAX \<and> (0::int) \<le> 5678 \<and> 5678 \<le> INT_MAX
   \<and> 1234 + 5678 \<le> INT_MAX \<and> 1234 * 5678 \<le> INT_MAX
   \<and> (\<exists>s. op_add (BigInt_int 1234) (BigInt_int 5678) = Inr s \<and> op_eq s (BigInt_int 6912))
   \<and> (\<exists>p. op_mult (BigInt_int 1234) (BigInt_int 5678) = Inr p \<and> op_eq p (BigInt_int 7006652))"
  using int_constructor_respects_add_mult [of 1234 5678] by (simp add: INT_MAX_def)

text \<open>
  C4. From canonical operands every arithmetic operator that returns a value returns a
  canonical one (\<open>/\<close> and \<open>%\<close> return one unless the divisor is zero, the empty
  sequence): no most significant zero digit; and a canonical value is zero only as the
  empty sequence, whichever operator produced it.
\<close>

theorem results_canonical:
  assumes "canonical a" and "canonical b"
  shows "(\<exists>r. op_add a b = Inr r \<and> canonical r)
       \<and> canonical (op_sub a b)
       \<and> (\<exists>r. op_mult a b = Inr r \<and> canonical r)
       \<and> (b \<noteq> [] \<longrightarrow> (\<exists>q. op_div a b = Inr q \<and> canonical q)
                      \<and> (\<exists>r. op_mod a b = Inr r \<and> canonical r))
       \<and> (\<exists>y. post_increment a = Inr (a, y) \<and> pre_increment a = Inr (y, y) \<and> canonical y)
       \<and> (\<forall>r. canonical r \<longrightarrow> (val r = 0 \<longleftrightarrow> r = []))"
proof -
  from assms have ok: "digits_ok a" "digits_ok b" by (simp_all add: canonical_def)
  have add: "\<exists>r. op_add a b = Inr r \<and> canonical r"
    using op_add_correct [OF ok] assms by blast
  have sub: "canonical (op_sub a b)" using ok by (rule op_sub_canonical)
  have mult: "\<exists>r. op_mult a b = Inr r \<and> canonical r"
    using op_mult_correct [OF ok] by blast
  have dm: "(\<exists>q. op_div a b = Inr q \<and> canonical q) \<and> (\<exists>r. op_mod a b = Inr r \<and> canonical r)"
    if "b \<noteq> []"
  proof -
    from assms(2) that have "val b \<noteq> 0" using canonical_pos [of b] by simp
    with op_div_correct [OF ok] op_mod_correct [OF ok] show ?thesis by blast
  qed
  have inc: "\<exists>y. post_increment a = Inr (a, y) \<and> pre_increment a = Inr (y, y) \<and> canonical y"
  proof -
    have one: "canonical (BigInt_int 1)" using BigInt_int_correct [of 1] by simp
    then have "digits_ok (BigInt_int 1)" by (simp add: canonical_def)
    from op_add_correct [OF ok(1) this] assms(1) one
    obtain y where "op_add a (BigInt_int 1) = Inr y" "canonical y" by auto
    then show ?thesis by (simp add: post_increment_def pre_increment_def)
  qed
  have zero: "\<forall>r. canonical r \<longrightarrow> (val r = 0 \<longleftrightarrow> r = [])"
    using canonical_zero by auto
  from add sub mult dm inc zero show ?thesis by blast
qed

theorem results_canonical_witness:
  "canonical [5, 2] \<and> canonical [5, 2] \<and> [5, 2] \<noteq> ([] :: BigInt)
   \<and> op_sub [5, 2] [5, 2] = [] \<and> op_mod [5, 2] [5, 2] = Inr []
   \<and> op_div [5, 2] [5, 2] = Inr [1] \<and> op_add [5, 2] [5, 2] = Inr [0, 5]
   \<and> canonical (op_sub [5, 2] [5, 2]) \<and> canonical [0, 5]"
proof -
  have h: "canonical [5, 2]" by (simp add: canonical_def)
  have ev: "op_sub [5, 2] [5, 2] = []" "op_mod [5, 2] [5, 2] = Inr []"
    "op_div [5, 2] [5, 2] = Inr [1]" "op_add [5, 2] [5, 2] = Inr [0, 5]"
    by code_simp+
  from results_canonical [OF h h] ev h show ?thesis by auto
qed

text \<open>
  C5. For canonical \<open>a\<close> and \<open>b\<close> with \<open>value b \<le> value a\<close>, the subtraction loop runs
  over all digits of the left operand and leaves as many digits, each in 0..9, whose
  value is \<open>value a - value b\<close>; \<open>a - b\<close> is that sequence without its most significant
  zeros: it is canonical and its value is \<open>value a - value b\<close>.
\<close>

theorem subtraction_correct:
  assumes "canonical a" and "canonical b" and "val b \<le> val a"
  shows "op_sub a b = strip (sub_loop a b 0 0 [])
       \<and> length (sub_loop a b 0 0 []) = length a
       \<and> digits_ok (sub_loop a b 0 0 [])
       \<and> val (sub_loop a b 0 0 []) = val a - val b
       \<and> canonical (op_sub a b)
       \<and> val (op_sub a b) = val a - val b"
proof -
  from assms have ok: "digits_ok a" "digits_ok b" by (simp_all add: canonical_def)
  from op_sub_correct [OF ok assms(3)]
  have "canonical (op_sub a b)" "val (op_sub a b) = val a - val b" .
  moreover have "val (sub_loop a b 0 0 []) = val (op_sub a b)"
    by (simp add: op_sub_def val_strip)
  ultimately show ?thesis using sub_loop_digits [OF ok] by (simp add: op_sub_def)
qed

theorem subtraction_correct_witness:
  "canonical [0, 0, 0, 1] \<and> canonical [1] \<and> val [1] \<le> val [0, 0, 0, 1]
   \<and> op_sub [0, 0, 0, 1] [1] = [9, 9, 9]
   \<and> canonical (op_sub [0, 0, 0, 1] [1])
   \<and> val (op_sub [0, 0, 0, 1] [1]) = 999"
proof -
  have h: "canonical [0, 0, 0, 1]" "canonical [1]" "val [1] \<le> val [0, 0, 0, 1]"
    by (simp_all add: canonical_def)
  have ev: "op_sub [0, 0, 0, 1] [1] = [9, 9, 9]" by code_simp
  from subtraction_correct [OF h]
  have "canonical (op_sub [0, 0, 0, 1] [1])"
    and "val (op_sub [0, 0, 0, 1] [1]) = val [0, 0, 0, 1] - val [1]"
    by blast+
  with h ev show ?thesis by simp
qed

text \<open>
  C6. For canonical \<open>a\<close> and \<open>b\<close>, \<open>a <= b\<close> is true exactly when the value of \<open>a\<close> is at
  most the value of \<open>b\<close>. A shorter sequence compares smaller; with equal lengths the
  most significant index at which the digits differ decides; a sequence is less or equal
  to itself.
\<close>

theorem op_le_decides_value:
  assumes "canonical a" and "canonical b"
  shows "(op_le a b \<longleftrightarrow> val a \<le> val b)
       \<and> (length a < length b \<longrightarrow> op_le a b \<and> val a < val b)
       \<and> (\<forall>k. length a = length b \<and> k < length a \<and> a ! k \<noteq> b ! k
                \<and> (\<forall>j. k < j \<and> j < length a \<longrightarrow> a ! j = b ! j)
              \<longrightarrow> (op_le a b \<longleftrightarrow> a ! k < b ! k))
       \<and> op_le a a"
proof -
  have iff: "op_le a b \<longleftrightarrow> val a \<le> val b"
    using assms by (rule op_le_correct)
  have refl: "op_le a a" by (simp add: op_le_def le_loop_refl)
  have shorter: "op_le a b \<and> val a < val b" if l: "length a < length b"
  proof -
    from l have "b \<noteq> []" by auto
    have "val a < 10 ^ length a" using assms(1) by (simp add: canonical_def val_less)
    also have "(10::int) ^ length a \<le> 10 ^ (length b - 1)"
      using l by (intro power_increasing) simp_all
    also have "\<dots> \<le> val b" using assms(2) \<open>b \<noteq> []\<close> by (rule canonical_lower)
    finally show ?thesis using l by (simp add: op_le_def)
  qed
  have mismatch: "op_le a b \<longleftrightarrow> a ! k < b ! k"
    if "length a = length b \<and> k < length a \<and> a ! k \<noteq> b ! k
          \<and> (\<forall>j. k < j \<and> j < length a \<longrightarrow> a ! j = b ! j)" for k
    using that le_loop_mismatch [of k "length a" a b] by (simp add: op_le_def)
  from iff refl shorter mismatch show ?thesis by blast
qed

theorem op_le_decides_value_witness:
  "canonical [3, 2, 1] \<and> canonical [4, 1, 1] \<and> \<not> op_le [3, 2, 1] [4, 1, 1]
   \<and> \<not> val [3, 2, 1] \<le> val [4, 1, 1] \<and> op_le [3, 2, 1] [3, 2, 1]"
proof -
  have c: "canonical [3, 2, 1]" "canonical [4, 1, 1]"
    by (simp_all add: canonical_def)
  from op_le_decides_value [OF c] c show ?thesis
    by (simp add: op_le_def)
qed

text \<open>
  C7. Post-increment returns the receiver as it was and leaves it one larger;
  pre-increment returns, and leaves the receiver equal to, the value one larger. The
  receiver is the only thing either changes. A canonical receiver stays canonical; from
  \<open>BigInt(9)\<close> post-increment returns \<open>BigInt(9)\<close>, pre-increment returns \<open>BigInt(10)\<close>, and
  both leave the receiver equal to \<open>BigInt(10)\<close>.
\<close>

theorem increment_semantics:
  assumes "digits_ok x"
  shows "(\<exists>y. post_increment x = Inr (x, y) \<and> pre_increment x = Inr (y, y)
              \<and> val y = val x + 1 \<and> digits_ok y \<and> (canonical x \<longrightarrow> canonical y))
       \<and> (\<exists>ret this'. post_increment (BigInt_int 9) = Inr (ret, this')
              \<and> op_eq ret (BigInt_int 9) \<and> op_eq this' (BigInt_int 10))
       \<and> (\<exists>ret this'. pre_increment (BigInt_int 9) = Inr (ret, this')
              \<and> op_eq ret (BigInt_int 10) \<and> op_eq this' (BigInt_int 10))"
proof -
  have one: "canonical (BigInt_int 1)" "val (BigInt_int 1) = 1"
    using BigInt_int_correct [of 1] by simp_all
  then have ok1: "digits_ok (BigInt_int 1)" by (simp add: canonical_def)
  from op_add_correct [OF assms ok1] one
  obtain y where y: "op_add x (BigInt_int 1) = Inr y" "val y = val x + 1" "digits_ok y"
    "canonical x \<longrightarrow> canonical y"
    by auto
  then have gen: "\<exists>y. post_increment x = Inr (x, y) \<and> pre_increment x = Inr (y, y)
              \<and> val y = val x + 1 \<and> digits_ok y \<and> (canonical x \<longrightarrow> canonical y)"
    by (simp add: post_increment_def pre_increment_def)
  have nine: "post_increment (BigInt_int 9) = Inr (BigInt_int 9, BigInt_int 10)"
    "pre_increment (BigInt_int 9) = Inr (BigInt_int 10, BigInt_int 10)"
    by code_simp+
  from gen nine show ?thesis by (simp add: op_eq_def)
qed

theorem increment_semantics_witness:
  "digits_ok [9, 9] \<and> canonical [9, 9]
   \<and> post_increment [9, 9] = Inr ([9, 9], [0, 0, 1])
   \<and> pre_increment [9, 9] = Inr ([0, 0, 1], [0, 0, 1])
   \<and> val [0, 0, 1] = val [9, 9] + 1 \<and> canonical [0, 0, 1]"
proof -
  have h: "digits_ok [9, 9]" "canonical [9, 9]" by (simp_all add: canonical_def)
  have ev: "post_increment [9, 9] = Inr ([9, 9], [0, 0, 1])" by code_simp
  from increment_semantics [OF h(1)] ev h show ?thesis by auto
qed

text \<open>
  C8. Printing a value (digits in 0..9) and constructing a \<open>BigInt\<close> from the string
  printed gives a value that compares equal to the original.
\<close>

theorem print_construct_roundtrip:
  assumes "digits_ok v"
  shows "op_eq (BigInt_string (print v)) v"
  using assms by (simp add: op_eq_def print_roundtrip)

theorem print_construct_roundtrip_witness:
  "digits_ok [4, 3, 2, 1, 0] \<and> print [4, 3, 2, 1, 0] = ''01234''
   \<and> op_eq (BigInt_string ''01234'') [4, 3, 2, 1, 0]"
proof -
  have h: "digits_ok [4, 3, 2, 1, 0]" by simp
  have ev: "print [4, 3, 2, 1, 0] = ''01234''" by code_simp
  from print_construct_roundtrip [OF h] ev h show ?thesis by simp
qed

text \<open>
  C9, for canonical receivers. For every canonical receiver \<open>n\<close>, \<open>fact()\<close> ends and returns
  the canonical digit sequence whose value is the factorial of the value of \<open>n\<close>: the
  product accumulated for \<open>i\<close> from 2 up to and including that value. The factorial of 0
  and of 1 is \<open>BigInt(1)\<close> and that of 10 is \<open>BigInt(3628800)\<close>.
\<close>

theorem fact_correct:
  assumes "canonical n"
  shows "(\<exists>r. fact_BigInt n = Some (Inr r) \<and> canonical r \<and> val r = fact (nat (val n)))
       \<and> fact_BigInt (BigInt_int 0) = Some (Inr (BigInt_int 1))
       \<and> fact_BigInt (BigInt_int 1) = Some (Inr (BigInt_int 1))
       \<and> fact_BigInt (BigInt_int 10) = Some (Inr (BigInt_int 3628800))"
proof -
  have ev: "fact_BigInt (BigInt_int 0) = Some (Inr (BigInt_int 1))"
    "fact_BigInt (BigInt_int 1) = Some (Inr (BigInt_int 1))"
    "fact_BigInt (BigInt_int 10) = Some (Inr (BigInt_int 3628800))"
    by code_simp+
  with fact_BigInt_correct [OF assms] show ?thesis by blast
qed

theorem fact_correct_witness:
  "canonical [5] \<and> fact_BigInt [5] = Some (Inr [0, 2, 1])
   \<and> canonical [0, 2, 1] \<and> val [0, 2, 1] = fact (nat (val [5]))"
proof -
  have h: "canonical [5]" by (simp add: canonical_def)
  have ev: "fact_BigInt [5] = Some (Inr [0, 2, 1])" by code_simp
  from fact_correct [OF h] ev h show ?thesis by auto
qed

text \<open>
  C9 as stated fails for a receiver with a most significant zero digit. \<open>BigInt("03")\<close>
  has the digits 3, 0 and the value 3; \<open>i <= *this\<close> compares the sizes first, so the
  loop runs until \<open>i\<close> has two digits and \<open>fact()\<close> returns 9! = 362880, not 3! = 6.
\<close>

theorem fact_leading_zero_counterexample:
  "BigInt_string ''03'' = [3, 0] \<and> digits_ok [3, 0] \<and> val [3, 0] = 3
   \<and> fact_BigInt [3, 0] = Some (Inr [0, 8, 8, 2, 6, 3])
   \<and> val [0, 8, 8, 2, 6, 3] = 362880
   \<and> val [0, 8, 8, 2, 6, 3] \<noteq> fact (nat (val [3, 0]))"
proof -
  have "BigInt_string ''03'' = [3, 0]" by code_simp
  moreover have "fact_BigInt [3, 0] = Some (Inr [0, 8, 8, 2, 6, 3])" by code_simp
  moreover have "(fact (nat 3) :: int) = 6" by (simp add: fact_numeral)
  ultimately show ?thesis by simp
qed

text \<open>
  C10. \<open>BigInt(0)\<close> is the empty digit sequence and \<open>BigInt("0")\<close> is the single digit 0;
  \<open>operator==\<close> compares the sequences, so the two zeros are not equal.
\<close>

theorem zero_constructions_differ:
  "BigInt_int 0 = [] \<and> BigInt_string ''0'' = [0]
   \<and> \<not> op_eq (BigInt_int 0) (BigInt_string ''0'')"
  by (simp add: BigInt_int_def BigInt_int_loop.simps BigInt_string_def op_eq_def to_char_def)

end
